theory Spec2Isabelle
  imports Main
begin

section \<open>The Foody web server (src/web/server.js)\<close>

text \<open>
  \<^verbatim>\<open>server.js\<close> is an Express application: three \<^verbatim>\<open>express.static\<close>
  middlewares, two GET routes and a listener.  The file itself only wires library
  handlers together, so the development has two layers.

  \<^item> The library layer is the behaviour of Node's POSIX \<^verbatim>\<open>path\<close> module, of
    \<^verbatim>\<open>decodeURIComponent\<close>, of \<^verbatim>\<open>send\<close> and \<^verbatim>\<open>serve-static\<close> and of the
    Express 4 router, as far as a request of this server reaches it.  Each definition
    names the library function it follows.
  \<^item> The application layer is \<^verbatim>\<open>server.js\<close> line by line: \<open>WEB_DIR\<close>, the
    middleware stack in the order of the \<^verbatim>\<open>app.use\<close> and \<^verbatim>\<open>app.get\<close> calls, and
    \<open>PORT\<close>.

  Scope of the model.  A request is a GET request given by the pathname of its URL
  (the part before any \<^verbatim>\<open>?\<close>), without conditional or range headers.  The file
  system is a map from absolute normalised paths to regular files and directories,
  without symbolic links and without I/O errors other than a missing entry; the
  path separator is \<^verbatim>\<open>/\<close>.
\<close>

subsection \<open>Characters\<close>

definition slash :: char where
  "slash = CHR ''/''"

definition dot :: char where
  "dot = CHR ''.''"

definition backslash :: char where
  "backslash = CHR 0x5C"

definition percent :: char where
  "percent = CHR ''%''"

definition dquote :: char where
  "dquote = CHR 0x22"

text \<open>ASCII lower case, as a JavaScript regular expression with the \<^verbatim>\<open>i\<close> flag
  folds the letters of an ASCII pattern.\<close>

definition toLower :: "char \<Rightarrow> char" where
  "toLower c = (let n = (of_char c :: nat) in
     if 65 \<le> n \<and> n \<le> 90 then char_of (n + 32) else c)"


definition hexval :: "char \<Rightarrow> nat option" where
  "hexval c = (let n = (of_char c :: nat) in
     if 48 \<le> n \<and> n \<le> 57 then Some (n - 48)
     else if 65 \<le> n \<and> n \<le> 70 then Some (n - 55)
     else if 97 \<le> n \<and> n \<le> 102 then Some (n - 87)
     else None)"

subsection \<open>Node's \<^verbatim>\<open>path\<close> module (POSIX)\<close>

text \<open>\<^verbatim>\<open>String.prototype.split('/')\<close>: the pieces between the separators; the
  empty string gives one empty piece.\<close>

fun split_sep :: "string \<Rightarrow> string list" where
  "split_sep [] = [[]]"
| "split_sep (c # cs) =
     (if c = slash then [] # split_sep cs
      else (case split_sep cs of
              [] \<Rightarrow> [[c]]
            | s # ss \<Rightarrow> (c # s) # ss))"

text \<open>\<^verbatim>\<open>Array.prototype.join('/')\<close>.\<close>

fun join_sep :: "string list \<Rightarrow> string" where
  "join_sep [] = []"
| "join_sep [s] = s"
| "join_sep (s # t # ts) = s @ slash # join_sep (t # ts)"

text \<open>
  \<^verbatim>\<open>normalizeString(path, allowAboveRoot, '/', isPosixPathSeparator)\<close>, on the
  segments of the path: an empty segment and \<^verbatim>\<open>.\<close> are skipped; \<^verbatim>\<open>..\<close> removes
  the last segment kept so far unless that is itself \<^verbatim>\<open>..\<close> or nothing is kept,
  in which case \<^verbatim>\<open>..\<close> is kept when \<open>allowAboveRoot\<close> holds and dropped
  otherwise.  The second argument is the result so far, last segment first.
\<close>

fun normalizeString :: "bool \<Rightarrow> string list \<Rightarrow> string list \<Rightarrow> string list" where
  "normalizeString allowAboveRoot res [] = rev res"
| "normalizeString allowAboveRoot res (s # ss) =
     (if s = [] \<or> s = [dot] then normalizeString allowAboveRoot res ss
      else if s = [dot, dot] then
        (case res of
           [] \<Rightarrow> normalizeString allowAboveRoot (if allowAboveRoot then [s] else []) ss
         | r # rs \<Rightarrow>
             if r \<noteq> [dot, dot] then normalizeString allowAboveRoot rs ss
             else normalizeString allowAboveRoot (if allowAboveRoot then s # res else res) ss)
      else normalizeString allowAboveRoot (s # res) ss)"

text \<open>\<^verbatim>\<open>path.normalize\<close>.\<close>

definition normalize :: "string \<Rightarrow> string" where
  "normalize path =
     (if path = [] then [dot]
      else
        let isAbsolute = (hd path = slash);
            trailingSeparator = (last path = slash);
            res = join_sep (normalizeString (\<not> isAbsolute) [] (split_sep path))
        in if res = [] then
             (if isAbsolute then [slash]
              else if trailingSeparator then [dot, slash] else [dot])
           else (if isAbsolute then [slash] else []) @ res
                @ (if trailingSeparator then [slash] else []))"

text \<open>\<^verbatim>\<open>path.join\<close>: the non-empty arguments joined by the separator, then
  normalised.\<close>

definition path_join :: "string list \<Rightarrow> string" where
  "path_join args =
     (let joined = join_sep (filter (\<lambda>a. a \<noteq> []) args)
      in if joined = [] then [dot] else normalize joined)"

text \<open>\<^verbatim>\<open>path.resolve\<close> of one absolute path: the normal form without a trailing
  separator.  (\<open>__dirname\<close> is absolute, so the working directory plays no part.)\<close>

definition strip_trailing :: "string \<Rightarrow> string" where
  "strip_trailing p = (if 1 < length p \<and> last p = slash then butlast p else p)"

definition resolve :: "string \<Rightarrow> string" where
  "resolve p = strip_trailing (normalize p)"

text \<open>\<^verbatim>\<open>path.extname\<close>: from the last dot of the last path component to its end;
  empty when the component has no dot, when its only dot is its first character, and
  for the component \<^verbatim>\<open>..\<close>.\<close>

definition basename :: "string \<Rightarrow> string" where
  "basename p = rev (takeWhile (\<lambda>c. c \<noteq> slash) (dropWhile (\<lambda>c. c = slash) (rev p)))"

definition extname :: "string \<Rightarrow> string" where
  "extname p =
     (let b = basename p;
          e = rev (takeWhile (\<lambda>c. c \<noteq> dot) (rev b))
      in if dot \<notin> set b \<or> Suc (length e) = length b \<or> b = [dot, dot] then []
         else dot # e)"

subsection \<open>\<^verbatim>\<open>decodeURIComponent\<close>\<close>

text \<open>
  A pathname is the byte string of the request line; Node reads each byte as one
  Latin-1 code unit.  \<^verbatim>\<open>decodeURIComponent\<close> replaces every \<^verbatim>\<open>%XX\<close> escape and
  throws \<^verbatim>\<open>URIError\<close> on a malformed escape and on escapes that are not the UTF-8
  encoding of a code point.  The result is given here as the bytes the file system
  receives, the UTF-8 encoding of the decoded JavaScript string.
\<close>

datatype tok = Raw char | Esc nat

fun tokens :: "string \<Rightarrow> tok list option" where
  "tokens [] = Some []"
| "tokens (c # cs) =
     (if c \<noteq> percent then map_option (Cons (Raw c)) (tokens cs)
      else (case cs of
              a # b # rest \<Rightarrow>
                (case (hexval a, hexval b) of
                   (Some x, Some y) \<Rightarrow> map_option (Cons (Esc (16 * x + y))) (tokens rest)
                 | _ \<Rightarrow> None)
            | _ \<Rightarrow> None))"

definition utf8_of_latin1 :: "char \<Rightarrow> string" where
  "utf8_of_latin1 c = (let n = (of_char c :: nat) in
     if n < 128 then [c] else [char_of (192 + n div 64), char_of (128 + n mod 64)])"

definition leading_ones :: "nat \<Rightarrow> nat" where
  "leading_ones b =
     (if b < 0x80 then 0 else if b < 0xC0 then 1 else if b < 0xE0 then 2
      else if b < 0xF0 then 3 else if b < 0xF8 then 4 else 5)"

definition continuation :: "nat \<Rightarrow> bool" where
  "continuation b = (0x80 \<le> b \<and> b \<le> 0xBF)"

fun wellformed_utf8 :: "nat list \<Rightarrow> bool" where
  "wellformed_utf8 [a, b] = (0xC2 \<le> a \<and> a \<le> 0xDF \<and> continuation b)"
| "wellformed_utf8 [a, b, c] =
     (continuation c \<and>
      (a = 0xE0 \<and> 0xA0 \<le> b \<and> b \<le> 0xBF \<or>
       0xE1 \<le> a \<and> a \<le> 0xEC \<and> continuation b \<or>
       a = 0xED \<and> 0x80 \<le> b \<and> b \<le> 0x9F \<or>
       0xEE \<le> a \<and> a \<le> 0xEF \<and> continuation b))"
| "wellformed_utf8 [a, b, c, d] =
     (continuation c \<and> continuation d \<and>
      (a = 0xF0 \<and> 0x90 \<le> b \<and> b \<le> 0xBF \<or>
       0xF1 \<le> a \<and> a \<le> 0xF3 \<and> continuation b \<or>
       a = 0xF4 \<and> 0x80 \<le> b \<and> b \<le> 0x8F))"
| "wellformed_utf8 _ = False"

text \<open>The octets of a multi-byte sequence are collected in \<open>pend\<close>; \<open>k\<close> is the
  number of escapes still owed to it.\<close>

fun assemble :: "nat list \<Rightarrow> nat \<Rightarrow> tok list \<Rightarrow> string option" where
  "assemble pend 0 [] = Some []"
| "assemble pend (Suc k) [] = None"
| "assemble pend 0 (Raw c # ts) = map_option (\<lambda>r. utf8_of_latin1 c @ r) (assemble [] 0 ts)"
| "assemble pend (Suc k) (Raw c # ts) = None"
| "assemble pend 0 (Esc b # ts) =
     (if b < 0x80 then map_option (Cons (char_of b)) (assemble [] 0 ts)
      else let n = leading_ones b
           in if n = 1 \<or> 4 < n then None else assemble [b] (n - 1) ts)"
| "assemble pend (Suc k) (Esc b # ts) =
     (let octets = pend @ [b]
      in if k = 0 then
           (if wellformed_utf8 octets
            then map_option (\<lambda>r. map char_of octets @ r) (assemble [] 0 ts)
            else None)
         else assemble octets k ts)"

definition decodeURIComponent :: "string \<Rightarrow> string option" where
  "decodeURIComponent s = (case tokens s of None \<Rightarrow> None | Some ts \<Rightarrow> assemble [] 0 ts)"

subsection \<open>The file system\<close>

datatype node = File string | Directory

type_synonym fs = "string \<Rightarrow> node option"

datatype stat = IsFile string | IsDirectory | ENOENT | ENOTDIR

text \<open>\<^verbatim>\<open>fs.stat\<close>: a path with a trailing separator names a directory, and fails
  with \<^verbatim>\<open>ENOTDIR\<close> on a regular file.\<close>

definition stat :: "fs \<Rightarrow> string \<Rightarrow> stat" where
  "stat fs p =
     (let q = strip_trailing p
      in case fs q of
           None \<Rightarrow> ENOENT
         | Some Directory \<Rightarrow> IsDirectory
         | Some (File bytes) \<Rightarrow> if q \<noteq> p then ENOTDIR else IsFile bytes)"

subsection \<open>\<^verbatim>\<open>send\<close>\<close>

record options =
  index :: "string list"
  extensions :: "string list"

text \<open>What a \<^verbatim>\<open>SendStream\<close> ends with: the \<^verbatim>\<open>file\<close> event followed by the
  stream of the file (status 200), the \<^verbatim>\<open>directory\<close> event, or \<^verbatim>\<open>error\<close> with
  a status code.\<close>

datatype send_result = SFile string string | SDirectory string | SError nat

text \<open>\<^verbatim>\<open>UP_PATH_REGEXP = /(?:^|[\\/])\.\.(?:[\\/]|$)/\<close>; the flag tells whether
  the position is the start of the string or follows a separator.\<close>

fun up_path_from :: "bool \<Rightarrow> string \<Rightarrow> bool" where
  "up_path_from b [] = False"
| "up_path_from b (c # cs) =
     (if b \<and> c = dot \<and>
         (case cs of
            [] \<Rightarrow> False
          | d # ds \<Rightarrow> d = dot \<and> (case ds of [] \<Rightarrow> True | e # _ \<Rightarrow> e = slash \<or> e = backslash))
      then True
      else up_path_from (c = slash \<or> c = backslash) cs)"

definition up_path :: "string \<Rightarrow> bool" where
  "up_path s = up_path_from True s"

text \<open>\<^verbatim>\<open>containsDotFile(parts)\<close>: some part is longer than one character and starts
  with a dot.\<close>

definition containsDotFile :: "string list \<Rightarrow> bool" where
  "containsDotFile parts = list_ex (\<lambda>part. 1 < length part \<and> hd part = dot) parts"

text \<open>The \<^verbatim>\<open>dotfiles\<close> option is not set by \<^verbatim>\<open>server.js\<close>, so \<^verbatim>\<open>send\<close> 0.x takes
  its legacy branch: the request is ignored (404) when the last part starts with a
  dot, and allowed otherwise.\<close>

definition dotfile_ignored :: "string list \<Rightarrow> bool" where
  "dotfile_ignored parts =
     (containsDotFile parts \<and> parts \<noteq> [] \<and> last parts \<noteq> [] \<and> hd (last parts) = dot)"

definition hasTrailingSlash :: "string \<Rightarrow> bool" where
  "hasTrailingSlash path = (path \<noteq> [] \<and> last path = slash)"

text \<open>\<^verbatim>\<open>sendIndex\<close>: the index names in order; a name that is missing or a directory
  is passed over; with none left the stream ends with 404.\<close>

fun sendIndex :: "fs \<Rightarrow> string \<Rightarrow> string list \<Rightarrow> send_result" where
  "sendIndex fs path [] = SError 404"
| "sendIndex fs path (i # is) =
     (let p = path_join [path, i]
      in case stat fs p of
           IsFile bytes \<Rightarrow> SFile p bytes
         | _ \<Rightarrow> sendIndex fs path is)"

text \<open>The inner \<^verbatim>\<open>next\<close> of \<^verbatim>\<open>sendFile\<close>: the extensions in order.\<close>

fun sendExtensions :: "fs \<Rightarrow> string \<Rightarrow> string list \<Rightarrow> send_result" where
  "sendExtensions fs path [] = SError 404"
| "sendExtensions fs path (e # es) =
     (let p = path @ dot # e
      in case stat fs p of
           IsFile bytes \<Rightarrow> SFile p bytes
         | _ \<Rightarrow> sendExtensions fs path es)"

text \<open>\<^verbatim>\<open>sendFile\<close>: the extensions are tried only when nothing exists at the path,
  the path has no extension and does not end with a separator.\<close>

definition sendFile :: "options \<Rightarrow> fs \<Rightarrow> string \<Rightarrow> send_result" where
  "sendFile opts fs path =
     (case stat fs path of
        ENOENT \<Rightarrow>
          if extname path = [] \<and> last path \<noteq> slash
          then sendExtensions fs path (extensions opts)
          else SError 404
      | ENOTDIR \<Rightarrow> SError 404
      | IsDirectory \<Rightarrow> SDirectory path
      | IsFile bytes \<Rightarrow> SFile path bytes)"

text \<open>\<^verbatim>\<open>SendStream.prototype.pipe\<close>, with a root.\<close>

definition pipe :: "options \<Rightarrow> string \<Rightarrow> fs \<Rightarrow> string \<Rightarrow> send_result" where
  "pipe opts root fs path =
     (case decodeURIComponent path of
        None \<Rightarrow> SError 400
      | Some d \<Rightarrow>
          if CHR 0x00 \<in> set d then SError 400
          else
            let n = (if d \<noteq> [] then normalize (dot # slash # d) else d)
            in if up_path n then SError 403
               else
                 let parts = split_sep n;
                     p = normalize (path_join [root, n])
                 in if dotfile_ignored parts then SError 404
                    else if index opts \<noteq> [] \<and> hasTrailingSlash path
                    then sendIndex fs p (index opts)
                    else sendFile opts fs p)"

subsection \<open>Responses\<close>

datatype json = JBool bool | JObject "(string \<times> json) list"

text \<open>\<^verbatim>\<open>JSON.stringify\<close> on objects of booleans.\<close>

fun stringify :: "json \<Rightarrow> string"
  and stringify_members :: "(string \<times> json) list \<Rightarrow> string" where
  "stringify (JBool b) = (if b then ''true'' else ''false'')"
| "stringify (JObject ms) = CHR ''{'' # stringify_members ms @ ''}''"
| "stringify_members [] = []"
| "stringify_members ((k, v) # ms) =
     dquote # k @ dquote # CHR '':'' # stringify v
       @ (if ms = [] then [] else CHR '','' # stringify_members ms)"

text \<open>
  The responses this server can give.
  \<^item> \<open>Send_File path bytes\<close>: \<^verbatim>\<open>send\<close> streams the file at \<open>path\<close>: status 200, the
    body is the content of the file.
  \<^item> \<open>Redirect code url\<close>: status \<open>code\<close>, and \<open>url\<close> is the string given to the
    \<^verbatim>\<open>Location\<close> header (both libraries pass it through \<^verbatim>\<open>encodeUrl\<close>, which leaves
    letters, digits and \<^verbatim>\<open>/\<close> as they are).
  \<^item> \<open>Json_Body v\<close>: \<^verbatim>\<open>res.json(v)\<close>: status 200, content type
    \<^verbatim>\<open>application/json\<close>, the body is \<^verbatim>\<open>JSON.stringify(v)\<close>.
  \<^item> \<open>Not_Found\<close>: the final handler of Express: status 404 and its page
    \<^verbatim>\<open>Cannot GET <path>\<close>.
  \<^item> \<open>Error_Page code\<close>: the final handler for an error passed to \<^verbatim>\<open>next\<close>.
\<close>

datatype response =
    Send_File string string
  | Redirect nat string
  | Json_Body json
  | Not_Found
  | Error_Page nat

fun status :: "response \<Rightarrow> nat" where
  "status (Send_File path bytes) = 200"
| "status (Redirect code url) = code"
| "status (Json_Body v) = 200"
| "status Not_Found = 404"
| "status (Error_Page code) = code"

text \<open>The body, where the model holds it: the file content and the JSON text.\<close>

fun body :: "response \<Rightarrow> string option" where
  "body (Send_File path bytes) = Some bytes"
| "body (Json_Body v) = Some (stringify v)"
| "body _ = None"


subsection \<open>\<^verbatim>\<open>serve-static\<close>\<close>

text \<open>\<^verbatim>\<open>collapseLeadingSlashes\<close>: several leading separators become one.\<close>

definition collapseLeadingSlashes :: "string \<Rightarrow> string" where
  "collapseLeadingSlashes str =
     (let i = length (takeWhile (\<lambda>c. c = slash) str)
      in if 1 < i then slash # drop i str else str)"

text \<open>
  The middleware \<^verbatim>\<open>serveStatic(root, options)\<close> for a GET request.  \<open>originalUrl\<close>
  is the pathname the client sent, \<open>url\<close> the pathname the router hands to the
  middleware (without the mount path).  \<open>None\<close> is the call of \<^verbatim>\<open>next()\<close>: with
  the default \<^verbatim>\<open>fallthrough\<close>, every error of \<^verbatim>\<open>send\<close> below 500 falls through.
  A directory is answered by the default \<^verbatim>\<open>redirect\<close> listener: 301 to the original
  pathname followed by a separator.
\<close>

definition serveStatic :: "string \<Rightarrow> options \<Rightarrow> fs \<Rightarrow> string \<Rightarrow> string \<Rightarrow> response option" where
  "serveStatic root opts fs originalUrl url =
     (let path = (if url = [slash] \<and> \<not> hasTrailingSlash originalUrl then [] else url)
      in case pipe opts (resolve root) fs path of
           SFile p bytes \<Rightarrow> Some (Send_File p bytes)
         | SDirectory p \<Rightarrow>
             if hasTrailingSlash path then None
             else Some (Redirect 301 (collapseLeadingSlashes (originalUrl @ [slash])))
         | SError code \<Rightarrow> if code < 500 then None else Some (Error_Page code))"

subsection \<open>The Express 4 router\<close>

text \<open>A layer is a matcher and a handler.  The matcher gives the pathname the
  handler sees; the handler gets the original pathname and that one, and answers or
  calls \<^verbatim>\<open>next()\<close> (\<open>None\<close>).\<close>

type_synonym handler = "string \<Rightarrow> string \<Rightarrow> response option"

datatype layer = Layer "string \<Rightarrow> string option" handler

text \<open>
  \<^verbatim>\<open>app.use(path, fn)\<close>.  Without a path every request matches and the URL is
  unchanged.  For a path such as \<^verbatim>\<open>/web\<close> the layer's expression is
  \<^verbatim>\<open>/^\/web\/?(?=\/|$)/i\<close>: the pathname must continue with a separator or end
  there; the matched text, with one more separator when another separator or the
  end follows it, is cut off, and a leading separator is put back if none is left.
\<close>

definition match_use :: "string \<Rightarrow> string \<Rightarrow> string option" where
  "match_use mount p =
     (if mount = [slash] then Some p
      else
        let k = length mount; rest = drop k p
        in if map toLower (take k p) = map toLower mount \<and> (rest = [] \<or> hd rest = slash)
           then Some (if rest = [] \<or> rest = [slash] then [slash]
                      else if take 2 rest = [slash, slash] then tl rest
                      else rest)
           else None)"

text \<open>\<^verbatim>\<open>app.get(path, fn)\<close> for a GET request: the route's expression is
  \<^verbatim>\<open>/^\/health\/?$/i\<close> for \<^verbatim>\<open>/health\<close> and \<^verbatim>\<open>/^\/?$/i\<close> for \<^verbatim>\<open>/\<close>; the URL is
  not changed.\<close>

definition match_route :: "string \<Rightarrow> string \<Rightarrow> string option" where
  "match_route route p =
     (let q = map toLower p; r = map toLower route
      in if (if hasTrailingSlash r then q = r \<or> q = butlast r
             else q = r \<or> q = r @ [slash])
         then Some p else None)"

definition use :: "string \<Rightarrow> handler \<Rightarrow> layer" where
  "use mount fn = Layer (match_use mount) fn"

definition get :: "string \<Rightarrow> response \<Rightarrow> layer" where
  "get route r = Layer (match_route route) (\<lambda>originalUrl url. Some r)"

text \<open>
  \<^verbatim>\<open>Router.handle\<close>: the layers in the order they were added.  A layer that does
  not match is skipped; the handler of a matching layer runs, and the next layer is
  looked at only when it calls \<^verbatim>\<open>next()\<close>.  With no layer left the final handler
  answers 404.  The first component lists the positions of the layers whose handler
  ran, the second is the response.
\<close>

fun dispatch :: "layer list \<Rightarrow> nat \<Rightarrow> string \<Rightarrow> nat list \<times> response" where
  "dispatch [] i p = ([], Not_Found)"
| "dispatch (Layer matcher fn # ls) i p =
     (case matcher p of
        None \<Rightarrow> dispatch ls (Suc i) p
      | Some url \<Rightarrow>
          (case fn p url of
             Some r \<Rightarrow> ([i], r)
           | None \<Rightarrow> (case dispatch ls (Suc i) p of (t, r) \<Rightarrow> (i # t, r))))"

subsection \<open>\<^verbatim>\<open>server.js\<close>\<close>

text \<open>\<^verbatim>\<open>const WEB_DIR = path.join(__dirname, 'web')\<close>\<close>

definition WEB_DIR :: "string \<Rightarrow> string" where
  "WEB_DIR dirname = path_join [dirname, ''web'']"

text \<open>\<^verbatim>\<open>{ index: 'index.html', extensions: ['html'] }\<close>\<close>

definition static_options :: options where
  "static_options = \<lparr>index = [''index.html''], extensions = [''html'']\<rparr>"

text \<open>The three lookups, in the order of the source:
  \<^verbatim>\<open>app.use('/web', express.static(WEB_DIR, ...))\<close>,
  \<^verbatim>\<open>app.use(express.static(WEB_DIR, ...))\<close> and
  \<^verbatim>\<open>app.use(express.static(__dirname, ...))\<close>.\<close>

definition strategy1 :: "string \<Rightarrow> fs \<Rightarrow> layer" where
  "strategy1 dirname fs = use ''/web'' (serveStatic (WEB_DIR dirname) static_options fs)"

definition strategy2 :: "string \<Rightarrow> fs \<Rightarrow> layer" where
  "strategy2 dirname fs = use ''/'' (serveStatic (WEB_DIR dirname) static_options fs)"

definition strategy3 :: "string \<Rightarrow> fs \<Rightarrow> layer" where
  "strategy3 dirname fs = use ''/'' (serveStatic dirname static_options fs)"

text \<open>\<^verbatim>\<open>app.get('/health', (req,res) => res.json({ ok: true }))\<close> and
  \<^verbatim>\<open>app.get('/', (req, res) => { res.redirect('/web/buyer/') })\<close>;
  \<^verbatim>\<open>res.redirect\<close> with one argument answers 302.\<close>

definition health :: layer where
  "health = get ''/health'' (Json_Body (JObject [(''ok'', JBool True)]))"

definition root_redirect :: layer where
  "root_redirect = get ''/'' (Redirect 302 ''/web/buyer/'')"

definition stack :: "string \<Rightarrow> fs \<Rightarrow> layer list" where
  "stack dirname fs =
     [strategy1 dirname fs, strategy2 dirname fs, strategy3 dirname fs, health, root_redirect]"

text \<open>The response of the application to \<^verbatim>\<open>GET p\<close>, and the layers that ran.\<close>

definition app :: "string \<Rightarrow> fs \<Rightarrow> string \<Rightarrow> response" where
  "app dirname fs p = snd (dispatch (stack dirname fs) 0 p)"


text \<open>What each lookup answers on its own; \<open>None\<close> when it does not apply or
  falls through.\<close>

fun run_layer :: "layer \<Rightarrow> string \<Rightarrow> response option" where
  "run_layer (Layer matcher fn) p =
     (case matcher p of None \<Rightarrow> None | Some url \<Rightarrow> fn p url)"

subsection \<open>The listen port\<close>


type_synonym env = "string \<Rightarrow> string option"







subsection \<open>Vocabulary of the properties\<close>

text \<open>A path segment as a normalised path has it: not empty, without a separator,
  and neither \<^verbatim>\<open>.\<close> nor \<^verbatim>\<open>..\<close>.\<close>

definition segment_ok :: "string \<Rightarrow> bool" where
  "segment_ok s = (s \<noteq> [] \<and> slash \<notin> set s \<and> s \<noteq> [dot] \<and> s \<noteq> [dot, dot])"

text \<open>The absolute path with the given segments; \<open>__dirname\<close> is such a path.\<close>

definition abs_path :: "string list \<Rightarrow> string" where
  "abs_path segs = slash # join_sep segs"

text \<open>\<open>under dir path\<close>: \<open>path\<close> is an absolute normalised path strictly below the
  directory with the segments \<open>dir\<close>.\<close>

definition under :: "string list \<Rightarrow> string \<Rightarrow> bool" where
  "under dir path =
     (case split_sep path of
        [] \<Rightarrow> False
      | e # segs \<Rightarrow>
          e = [] \<and> list_all segment_ok segs \<and> length dir < length segs
          \<and> take (length dir) segs = dir)"

definition is_file :: "fs \<Rightarrow> string \<Rightarrow> bool" where
  "is_file fs p = (case fs p of Some (File bytes) \<Rightarrow> True | _ \<Rightarrow> False)"

text \<open>A plain segment of a request path: printable ASCII characters other than
  the separator, the backslash, \<^verbatim>\<open>%\<close>, \<^verbatim>\<open>?\<close> and \<^verbatim>\<open>#\<close>, the first of
  them not a dot.  A pathname of plain segments reads the same before and after
  decoding and normalisation.\<close>

definition plain_char :: "char \<Rightarrow> bool" where
  "plain_char c =
     (33 \<le> (of_char c :: nat) \<and> (of_char c :: nat) \<le> 126 \<and> c \<noteq> slash \<and> c \<noteq> backslash
      \<and> c \<noteq> percent \<and> c \<noteq> CHR ''?'' \<and> c \<noteq> CHR ''#'')"

definition plain_segment :: "string \<Rightarrow> bool" where
  "plain_segment s = (s \<noteq> [] \<and> list_all plain_char s \<and> hd s \<noteq> dot)"

text \<open>A traversal attempt: the decoded pathname, normalised as \<^verbatim>\<open>send\<close> does it,
  climbs above the root it is resolved against.\<close>

definition traversal :: "string \<Rightarrow> bool" where
  "traversal p =
     (case decodeURIComponent p of
        None \<Rightarrow> False
      | Some d \<Rightarrow> d \<noteq> [] \<and> up_path (normalize (dot # slash # d)))"

text \<open>A word: a non-empty run of ASCII characters without dot, separator,
  backslash or escape.  The literal parts of the routes are words in any letter
  case.\<close>

definition word :: "string \<Rightarrow> bool" where
  "word w = (w \<noteq> [] \<and> list_all (\<lambda>c. (of_char c :: nat) < 128 \<and> c \<noteq> dot \<and> c \<noteq> slash
      \<and> c \<noteq> backslash \<and> c \<noteq> percent) w)"

text \<open>The invariant of the result that \<open>normalizeString\<close> builds for a relative
  path (last segment first): no segment is empty, contains a separator or is
  \<^verbatim>\<open>.\<close>, and below a \<^verbatim>\<open>..\<close> there are only \<^verbatim>\<open>..\<close>.\<close>

fun stack_ok :: "string list \<Rightarrow> bool" where
  "stack_ok [] = True"
| "stack_ok (r # rs) =
     (r \<noteq> [] \<and> slash \<notin> set r \<and> r \<noteq> [dot] \<and>
      (if r = [dot, dot] then list_all (\<lambda>x. x = [dot, dot]) rs else stack_ok rs))"

text \<open>The path \<^verbatim>\<open>send\<close> looks at for the decoded path \<open>d\<close> under the root with
  segments \<open>R\<close>, when it accepts \<open>d\<close>.\<close>

definition target :: "string list \<Rightarrow> string \<Rightarrow> string" where
  "target R d =
     (let X = R @ normalizeString True [] (split_sep d)
      in abs_path X @ (if X \<noteq> [] \<and> d \<noteq> [] \<and> last d = slash then [slash] else []))"

section \<open>Facts about the router\<close>

lemma toLower_slash: "(toLower c = slash) = (c = slash)"
proof (cases "65 \<le> (of_char c :: nat) \<and> (of_char c :: nat) \<le> 90")
  case True
  then have "(of_char (toLower c) :: nat) = of_char c + 32"
    by (simp add: toLower_def Let_def)
  moreover have "(of_char slash :: nat) = 47" by (simp add: slash_def)
  ultimately show ?thesis using True by auto
next
  case False
  then show ?thesis by (auto simp: toLower_def Let_def)
qed

lemma match_route_root: "match_route ''/'' p = (if p = ''/'' \<or> p = [] then Some p else None)"
proof -
  have "map toLower p = [slash] \<longleftrightarrow> p = [slash]"
    by (cases p) (auto simp: toLower_slash)
  then show ?thesis
    by (auto simp: match_route_def hasTrailingSlash_def Let_def slash_def toLower_def)
qed

lemma match_route_health:
  "match_route ''/health'' p =
     (if map toLower p = ''/health'' \<or> map toLower p = ''/health/'' then Some p else None)"
  by (simp add: match_route_def hasTrailingSlash_def Let_def slash_def toLower_def)

lemma dispatch_routes:
  "dispatch [health, root_redirect] i p =
     (if map toLower p = ''/health'' \<or> map toLower p = ''/health/''
      then ([i], Json_Body (JObject [(''ok'', JBool True)]))
      else if p = ''/'' \<or> p = [] then ([Suc i], Redirect 302 ''/web/buyer/'')
      else ([], Not_Found))"
  by (simp add: health_def root_redirect_def get_def match_route_root match_route_health)

text \<open>The application answers with the first lookup that answers, then with the
  routes.\<close>

lemma app_chain:
  "app d fs p =
     (case run_layer (strategy1 d fs) p of Some r \<Rightarrow> r | None \<Rightarrow>
      case run_layer (strategy2 d fs) p of Some r \<Rightarrow> r | None \<Rightarrow>
      case run_layer (strategy3 d fs) p of Some r \<Rightarrow> r | None \<Rightarrow>
      snd (dispatch [health, root_redirect] 3 p))"
  by (auto simp: app_def stack_def strategy1_def strategy2_def strategy3_def use_def
      numeral_3_eq_3 split: option.splits prod.splits)

section \<open>Facts about paths, \<^verbatim>\<open>send\<close> and traversal\<close>

lemma split_sep_nonempty: "split_sep s \<noteq> []"
  by (induction s) (auto split: list.splits)

lemma split_sep_append: "split_sep (a @ slash # b) = split_sep a @ split_sep b"
  by (induction a) (auto split: list.splits simp: split_sep_nonempty)

lemma split_sep_noslash: "slash \<notin> set s \<Longrightarrow> split_sep s = [s]"
  by (induction s) auto

lemma split_sep_segments: "list_all (\<lambda>s. slash \<notin> set s) (split_sep s)"
  by (induction s) (auto split: list.splits)

lemma split_sep_join: "segs \<noteq> [] \<Longrightarrow> list_all (\<lambda>s. slash \<notin> set s) segs \<Longrightarrow> split_sep (join_sep segs) = segs"
proof (induction segs rule: join_sep.induct)
  case 1 then show ?case by simp
next
  case (2 s) then show ?case by (simp add: split_sep_noslash)
next
  case (3 s t ts)
  then show ?case by (simp add: split_sep_append split_sep_noslash)
qed

lemma normalizeString_append:
  "normalizeString a res (xs @ ys) = normalizeString a (rev (normalizeString a res xs)) ys"
  by (induction xs arbitrary: res) (auto split: list.splits)

lemma normalizeString_clean:
  "list_all segment_ok xs \<Longrightarrow> normalizeString a res xs = rev res @ xs"
  by (induction xs arbitrary: res) (auto simp: segment_ok_def)

lemma join_sep_Cons: "join_sep (s # ts) = (if ts = [] then s else s @ slash # join_sep ts)"
  by (cases ts) auto

lemma join_sep_eq_Nil: "list_all segment_ok xs \<Longrightarrow> (join_sep xs = []) = (xs = [])"
  by (cases xs) (auto simp: join_sep_Cons segment_ok_def)

lemma join_sep_snoc: "xs \<noteq> [] \<Longrightarrow> join_sep (xs @ [s]) = join_sep xs @ slash # s"
  by (induction xs rule: join_sep.induct) auto

lemma last_join_sep: "list_all segment_ok xs \<Longrightarrow> xs \<noteq> [] \<Longrightarrow> last (join_sep xs) = last (last xs)"
  by (induction xs rule: join_sep.induct) (auto simp: segment_ok_def join_sep_eq_Nil)

lemma last_join_not_slash: "list_all segment_ok xs \<Longrightarrow> xs \<noteq> [] \<Longrightarrow> last (join_sep xs) \<noteq> slash"
  by (induction xs rule: join_sep.induct) (auto simp: segment_ok_def join_sep_eq_Nil dest: last_in_set)

lemma hd_join_sep: "list_all segment_ok xs \<Longrightarrow> xs \<noteq> [] \<Longrightarrow> hd (join_sep xs) = hd (hd xs)"
  by (cases xs) (auto simp: join_sep_Cons segment_ok_def)

lemma split_abs_path: "list_all segment_ok D \<Longrightarrow> split_sep (abs_path D) = [] # (if D = [] then [[]] else D)"
  by (auto simp: abs_path_def split_sep_join list_all_iff segment_ok_def)

lemma normalizeString_skip_empty [simp]: "normalizeString a res ([] # ss) = normalizeString a res ss"
  by simp

lemma normalize_abs_path: "list_all segment_ok D \<Longrightarrow> normalize (abs_path D) = abs_path D"
  apply (cases "D = []")
   apply (simp add: normalize_def abs_path_def)
  apply (simp add: normalize_def Let_def split_abs_path normalizeString_clean join_sep_eq_Nil)
  apply (simp add: abs_path_def last_join_not_slash join_sep_eq_Nil)
  done

lemma normalize_abs_rel:
  assumes "list_all segment_ok D" "x \<noteq> []"
  shows "normalize (abs_path D @ slash # x) =
    (let S = normalizeString False (rev D) (split_sep x)
     in if join_sep S = [] then [slash] else slash # join_sep S @ (if last x = slash then [slash] else []))"
proof -
  have "split_sep (abs_path D @ slash # x) = ([] # (if D = [] then [[]] else D)) @ split_sep x"
    using assms by (simp add: split_sep_append split_abs_path)
  moreover have "normalizeString False [] (([] # (if D = [] then [[]] else D)) @ split_sep x)
     = normalizeString False (rev D) (split_sep x)"
    using assms by (simp add: normalizeString_append normalizeString_clean)
  ultimately show ?thesis using assms
    by (simp add: normalize_def Let_def abs_path_def)
qed

lemma all_dotdot_stack_ok: "list_all (\<lambda>x. x = [dot, dot]) rs \<Longrightarrow> stack_ok rs"
  by (induction rs) (auto simp: slash_def dot_def)

lemma normalizeString_stack_ok:
  "stack_ok res \<Longrightarrow> list_all (\<lambda>s. slash \<notin> set s) segs \<Longrightarrow>
   stack_ok (rev (normalizeString True res segs))"
proof (induction segs arbitrary: res)
  case Nil then show ?case by simp
next
  case (Cons s ss)
  show ?case
  proof (cases "s = [] \<or> s = [dot]")
    case True then show ?thesis using Cons by simp
  next
    case False
    note ns = this
    show ?thesis
    proof (cases "s = [dot, dot]")
      case True
      show ?thesis
      proof (cases res)
        case Nil
        have "stack_ok [s]" using True by (simp add: slash_def dot_def)
        then show ?thesis using Cons True Nil by simp
      next
        case (Cons r rs)
        show ?thesis
        proof (cases "r = [dot, dot]")
          case rdd: True
          have "stack_ok (s # res)" using True rdd Cons \<open>stack_ok res\<close> by (simp add: slash_def dot_def)
          then show ?thesis using Cons.IH[of "s # res"] Cons.prems True Cons rdd ns by simp
        next
          case False
          then have "stack_ok rs" using Cons \<open>stack_ok res\<close> by simp
          then show ?thesis using Cons.IH[of rs] Cons.prems True Cons False ns by simp
        qed
      qed
    next
      case False
      have "stack_ok (s # res)" using False ns Cons.prems by simp
      then show ?thesis using Cons.IH[of "s # res"] Cons.prems False ns by simp
    qed
  qed
qed

lemma stack_ok_clean:
  "stack_ok res \<Longrightarrow> res = [] \<or> last res \<noteq> [dot, dot] \<Longrightarrow> list_all segment_ok res"
proof (induction res)
  case Nil then show ?case by simp
next
  case (Cons r rs)
  show ?case
  proof (cases "r = [dot, dot]")
    case True
    then have "list_all (\<lambda>x. x = [dot, dot]) rs" using Cons.prems by simp
    then have "last (r # rs) = [dot, dot]" using True by (induction rs) auto
    then show ?thesis using Cons.prems by simp
  next
    case False
    then have "stack_ok rs" using Cons.prems by simp
    moreover have "rs = [] \<or> last rs \<noteq> [dot, dot]" using Cons.prems by (cases rs) auto
    ultimately have "list_all segment_ok rs" using Cons.IH by blast
    moreover have "segment_ok r" using False Cons.prems by (simp add: segment_ok_def)
    ultimately show ?thesis by simp
  qed
qed

lemma stack_ok_nonempty: "stack_ok res \<Longrightarrow> list_all (\<lambda>s. s \<noteq> []) res"
  by (induction res) (auto split: if_splits simp: list_all_iff)

lemma up_path_dotdot:
  "S \<noteq> [] \<Longrightarrow> hd S = [dot, dot] \<Longrightarrow> t = [] \<or> t = [slash] \<Longrightarrow> up_path (join_sep S @ t)"
  by (cases S) (auto simp: up_path_def join_sep_Cons)

lemma chars_distinct [simp]:
  "slash \<noteq> dot" "dot \<noteq> slash" "slash \<noteq> backslash" "backslash \<noteq> slash"
  "dot \<noteq> backslash" "backslash \<noteq> dot" "slash \<noteq> percent" "percent \<noteq> slash"
  "dot \<noteq> percent" "percent \<noteq> dot"
  by (simp_all add: slash_def dot_def backslash_def percent_def)

lemma segment_ok_append [simp]: "list_all segment_ok (xs @ ys) = (list_all segment_ok xs \<and> list_all segment_ok ys)"
  by simp

lemma WEB_DIR_abs: "list_all segment_ok dir \<Longrightarrow> WEB_DIR (abs_path dir) = abs_path (dir @ [''web''])"
proof -
  assume d: "list_all segment_ok dir"
  have w: "segment_ok ''web''" by (simp add: segment_ok_def slash_def dot_def)
  have "abs_path dir \<noteq> []" by (simp add: abs_path_def)
  then have "WEB_DIR (abs_path dir) = normalize (abs_path dir @ slash # ''web'')"
    by (simp add: WEB_DIR_def path_join_def Let_def)
  also have "\<dots> = (let S = normalizeString False (rev dir) (split_sep ''web'')
     in if join_sep S = [] then [slash]
        else slash # join_sep S @ (if last ''web'' = slash then [slash] else []))"
    using d by (rule normalize_abs_rel) simp
  also have "\<dots> = abs_path (dir @ [''web''])"
  proof -
    have "split_sep ''web'' = [''web'']" "last ''web'' \<noteq> slash"
      by (simp_all add: slash_def)
    moreover have "list_all segment_ok (dir @ [''web''])" using d w by simp
    ultimately show ?thesis using d w
      by (simp add: Let_def normalizeString_clean join_sep_eq_Nil abs_path_def)
  qed
  finally show ?thesis .
qed

lemma last_abs_path: "list_all segment_ok D \<Longrightarrow> D \<noteq> [] \<Longrightarrow> last (abs_path D) \<noteq> slash"
  by (simp add: abs_path_def join_sep_eq_Nil last_join_not_slash)

lemma resolve_abs: "list_all segment_ok D \<Longrightarrow> resolve (abs_path D) = abs_path D"
  by (cases "D = []") (auto simp: resolve_def normalize_abs_path strip_trailing_def last_abs_path, simp add: abs_path_def)

lemma normalize_rel:
  assumes "d \<noteq> []"
  shows "normalize (dot # slash # d) =
    (let S = normalizeString True [] (split_sep d)
     in if join_sep S = [] then (if last d = slash then [dot, slash] else [dot])
        else join_sep S @ (if last d = slash then [slash] else []))"
proof -
  have "split_sep (dot # slash # d) = [dot] # split_sep d"
    using split_sep_append [of "[dot]" d] by (simp add: slash_def dot_def)
  then show ?thesis using assms
    by (simp add: normalize_def Let_def slash_def dot_def)
qed

lemma normalize_abs_dir:
  assumes "list_all segment_ok X" "X \<noteq> []"
  shows "normalize (abs_path X @ [slash]) = abs_path X @ [slash]"
proof -
  have "split_sep (abs_path X @ [slash]) = ([] # X) @ [[]]"
    using assms split_sep_append [of "abs_path X" "[]"] by (simp add: split_abs_path)
  then show ?thesis using assms
    by (simp add: normalize_def Let_def normalizeString_append normalizeString_clean
        join_sep_eq_Nil abs_path_def)
qed

text \<open>The normal form of a decoded path that is not rejected has clean segments.\<close>

lemma accepted_clean:
  assumes "d \<noteq> []" "\<not> up_path (normalize (dot # slash # d))"
  shows "list_all segment_ok (normalizeString True [] (split_sep d))"
proof -
  let ?S = "normalizeString True [] (split_sep d)"
  have ok: "stack_ok (rev ?S)"
    using normalizeString_stack_ok [of "[]" "split_sep d"] split_sep_segments by simp
  have ne: "list_all (\<lambda>s. s \<noteq> []) ?S"
    using stack_ok_nonempty [OF ok] by simp
  have "?S = [] \<or> hd ?S \<noteq> [dot, dot]"
  proof (rule ccontr)
    assume "\<not> (?S = [] \<or> hd ?S \<noteq> [dot, dot])"
    then have S: "?S \<noteq> []" "hd ?S = [dot, dot]" by auto
    then have j: "join_sep ?S \<noteq> []" by (cases ?S) (auto simp: join_sep_Cons)
    have "up_path (join_sep ?S @ (if last d = slash then [slash] else []))"
      by (rule up_path_dotdot [OF S]) simp
    then show False using assms j by (simp add: normalize_rel Let_def)
  qed
  then have "rev ?S = [] \<or> last (rev ?S) \<noteq> [dot, dot]"
    by (cases ?S) (auto simp: last_rev)
  then have "list_all segment_ok (rev ?S)" by (rule stack_ok_clean [OF ok])
  then show ?thesis by simp
qed

lemma resolved_path:
  assumes R: "list_all segment_ok R"
    and S: "list_all segment_ok (normalizeString True [] (split_sep d))"
  shows "normalize (path_join [abs_path R, (if d \<noteq> [] then normalize (dot # slash # d) else d)])
           = target R d"
proof (cases "d = []")
  case True
  then show ?thesis using R
    by (simp add: path_join_def abs_path_def[of R] target_def normalize_abs_path Let_def)
       (simp add: abs_path_def normalize_abs_path[unfolded abs_path_def])
next
  case False
  let ?S = "normalizeString True [] (split_sep d)"
  let ?n = "normalize (dot # slash # d)"
  let ?t = "if last d = slash then [slash] else []"
  have n: "?n = (if ?S = [] then (if last d = slash then [dot, slash] else [dot]) else join_sep ?S @ ?t)"
    using False S by (simp add: normalize_rel Let_def join_sep_eq_Nil)
  have nne: "?n \<noteq> []" using n S by (auto simp: join_sep_eq_Nil)
  have lastn: "(last ?n = slash) = (last d = slash)"
    using n S by (auto simp: last_join_not_slash)
  have split_n: "normalizeString False (rev R) (split_sep ?n) = R @ ?S"
  proof (cases "?S = []")
    case True
    then show ?thesis using n
      by (auto simp: split_sep_append [of "[dot]" "[]", simplified] split_sep_noslash)
  next
    case ne: False
    have "list_all (\<lambda>s. slash \<notin> set s) ?S" using S by (simp add: list_all_iff segment_ok_def)
    then have sj: "split_sep (join_sep ?S) = ?S" using ne by (simp add: split_sep_join)
    have "split_sep (join_sep ?S @ [slash]) = ?S @ [[]]"
      using split_sep_append [of "join_sep ?S" "[]"] sj by simp
    then show ?thesis using n ne sj S
      by (auto simp: normalizeString_append normalizeString_clean)
  qed
  have "path_join [abs_path R, ?n] = normalize (abs_path R @ slash # ?n)"
    using nne by (simp add: path_join_def abs_path_def)
  also have "\<dots> = (if R @ ?S = [] then [slash] else slash # join_sep (R @ ?S) @ ?t)"
    using R S nne by (simp add: normalize_abs_rel Let_def split_n lastn join_sep_eq_Nil)
  finally have pj: "path_join [abs_path R, ?n] = (if R @ ?S = [] then [slash] else abs_path (R @ ?S) @ ?t)"
    by (simp add: abs_path_def)
  have "normalize (path_join [abs_path R, ?n]) = (if R @ ?S = [] then [slash] else abs_path (R @ ?S) @ ?t)"
  proof (cases "R @ ?S = []")
    case True
    then show ?thesis using pj normalize_abs_path [of "[]"] by (simp add: abs_path_def)
  next
    case False
    then show ?thesis using pj R S normalize_abs_dir [of "R @ ?S"] normalize_abs_path [of "R @ ?S"]
      by auto
  qed
  then show ?thesis using False by (auto simp: target_def Let_def abs_path_def)
qed

lemma pipe_accepted:
  assumes R: "list_all segment_ok R"
    and d: "decodeURIComponent path = Some d" "CHR 0x00 \<notin> set d"
    and up: "\<not> up_path (if d \<noteq> [] then normalize (dot # slash # d) else d)"
  shows "pipe opts (abs_path R) fs path =
     (if dotfile_ignored (split_sep (if d \<noteq> [] then normalize (dot # slash # d) else d))
      then SError 404
      else if index opts \<noteq> [] \<and> hasTrailingSlash path
      then sendIndex fs (target R d) (index opts)
      else sendFile opts fs (target R d))"
    and "list_all segment_ok (normalizeString True [] (split_sep d))"
proof -
  show S: "list_all segment_ok (normalizeString True [] (split_sep d))"
  proof (cases "d = []")
    case True then show ?thesis by simp
  next
    case False then show ?thesis using up by (simp add: accepted_clean)
  qed
  show "pipe opts (abs_path R) fs path =
     (if dotfile_ignored (split_sep (if d \<noteq> [] then normalize (dot # slash # d) else d))
      then SError 404
      else if index opts \<noteq> [] \<and> hasTrailingSlash path
      then sendIndex fs (target R d) (index opts)
      else sendFile opts fs (target R d))"
    using d up resolved_path [OF R S]
    by (simp add: pipe_def Let_def del: normalizeString.simps split_sep.simps)
qed

lemma segment_last: "segment_ok s \<Longrightarrow> last s \<noteq> slash"
  by (auto simp: segment_ok_def dest: last_in_set)

lemma normalize_abs_seg:
  assumes X: "list_all segment_ok X" and s: "segment_ok s"
  shows "normalize (abs_path X @ slash # s) = abs_path (X @ [s])"
    and "normalize (abs_path X @ slash # slash # s) = abs_path (X @ [s])"
proof -
  have sp: "split_sep s = [s]" using s by (simp add: split_sep_noslash segment_ok_def)
  have sp2: "split_sep (slash # s) = [[], s]" using sp by simp
  have ne: "s \<noteq> []" using s by (simp add: segment_ok_def)
  have Xs: "list_all segment_ok (X @ [s])" using X s by simp
  have j: "join_sep (X @ [s]) \<noteq> []" using Xs join_sep_eq_Nil by blast
  have n1: "normalizeString False (rev X) [s] = X @ [s]"
    using s normalizeString_clean [of "[s]" False "rev X"] by simp
  have n2: "normalizeString False (rev X) [[], s] = X @ [s]"
    using n1 by simp
  have "normalize (abs_path X @ slash # s) =
       (let S = normalizeString False (rev X) (split_sep s)
        in if join_sep S = [] then [slash]
           else slash # join_sep S @ (if last s = slash then [slash] else []))"
    using X ne by (rule normalize_abs_rel)
  then show "normalize (abs_path X @ slash # s) = abs_path (X @ [s])"
    unfolding sp n1 Let_def using j segment_last [OF s] by (simp add: abs_path_def)
  have "normalize (abs_path X @ slash # (slash # s)) =
       (let S = normalizeString False (rev X) (split_sep (slash # s))
        in if join_sep S = [] then [slash]
           else slash # join_sep S @ (if last (slash # s) = slash then [slash] else []))"
    using X by (rule normalize_abs_rel) simp
  then show "normalize (abs_path X @ slash # slash # s) = abs_path (X @ [s])"
    unfolding sp2 n2 Let_def using j segment_last [OF s] ne by (simp add: abs_path_def)
qed

lemma index_path:
  assumes "list_all segment_ok X" "t = [] \<or> t = [slash]"
  shows "path_join [abs_path X @ t, ''index.html''] = abs_path (X @ [''index.html''])"
proof -
  have i: "segment_ok ''index.html''"
    by (simp add: segment_ok_def slash_def dot_def)
  have ne: "abs_path X @ t \<noteq> []" by (simp add: abs_path_def)
  have "path_join [abs_path X @ t, ''index.html''] = normalize (abs_path X @ t @ slash # ''index.html'')"
    unfolding path_join_def Let_def using ne by simp
  then show ?thesis using assms(2) normalize_abs_seg [OF assms(1) i] by auto
qed

lemma stat_plain:
  "length p \<le> 1 \<or> last p \<noteq> slash \<Longrightarrow>
   stat fs p = (case fs p of None \<Rightarrow> ENOENT | Some Directory \<Rightarrow> IsDirectory
                | Some (File bytes) \<Rightarrow> IsFile bytes)"
  by (auto simp: stat_def strip_trailing_def Let_def split: option.splits node.splits)

lemma stat_IsFile: "stat fs p = IsFile bytes \<Longrightarrow> fs p = Some (File bytes) \<and> strip_trailing p = p"
  by (auto simp: stat_def Let_def split: option.splits node.splits if_splits)

lemma stat_ENOENT: "stat fs p = ENOENT \<Longrightarrow> fs (strip_trailing p) = None"
  by (auto simp: stat_def Let_def split: option.splits node.splits if_splits)

lemma sendIndex_SFile:
  "sendIndex fs P [i] = SFile q bytes \<Longrightarrow> q = path_join [P, i] \<and> fs q = Some (File bytes)"
  by (auto simp: Let_def split: stat.splits dest: stat_IsFile)

lemma sendFile_SFile:
  assumes "sendFile static_options fs P = SFile q bytes"
  shows "fs q = Some (File bytes) \<and>
     (q = P \<and> strip_trailing P = P \<or>
      q = P @ ''.html'' \<and> last P \<noteq> slash \<and> fs (strip_trailing P) = None)"
  using assms
  by (auto simp: sendFile_def static_options_def Let_def dot_def
      split: stat.splits if_splits dest: stat_IsFile stat_ENOENT)

lemma join_sep_ext: "X \<noteq> [] \<Longrightarrow> join_sep X @ e = join_sep (butlast X @ [last X @ e])"
  by (induction X rule: join_sep.induct) (auto simp: join_sep_Cons)

lemma abs_path_ext: "X \<noteq> [] \<Longrightarrow> abs_path X @ e = abs_path (butlast X @ [last X @ e])"
  by (simp add: abs_path_def join_sep_ext)

lemma segment_ok_ext: "segment_ok s \<Longrightarrow> segment_ok (s @ ''.html'')"
  by (auto simp: segment_ok_def slash_def dot_def)

lemma clean_ext:
  "list_all segment_ok X \<Longrightarrow> X \<noteq> [] \<Longrightarrow> list_all segment_ok (butlast X @ [last X @ ''.html''])"
  by (induction X) (auto simp: segment_ok_ext)

lemma target_cases:
  "target R d = abs_path (R @ normalizeString True [] (split_sep d)) \<or>
   (R @ normalizeString True [] (split_sep d) \<noteq> [] \<and>
    target R d = abs_path (R @ normalizeString True [] (split_sep d)) @ [slash])"
  by (auto simp: target_def Let_def)

lemma strip_trailing_dir: "strip_trailing (abs_path X @ [slash]) = abs_path X"
  by (simp add: strip_trailing_def abs_path_def)

lemma pipe_SFile:
  assumes R: "list_all segment_ok R"
    and p: "pipe static_options (abs_path R) fs path = SFile q bytes"
  shows "fs q = Some (File bytes) \<and>
     ((\<exists>X. X \<noteq> [] \<and> list_all segment_ok X \<and> q = abs_path (R @ X)) \<or> q = abs_path R \<or>
      (R \<noteq> [] \<and> fs (abs_path R) = None \<and> q = abs_path R @ ''.html''))"
proof -
  obtain d where d: "decodeURIComponent path = Some d" "CHR 0x00 \<notin> set d"
      "\<not> up_path (if d \<noteq> [] then normalize (dot # slash # d) else d)"
    using p by (auto simp: pipe_def Let_def split: option.splits if_splits)
  let ?S = "normalizeString True [] (split_sep d)"
  have S: "list_all segment_ok ?S" using pipe_accepted(2) [OF R d] .
  have RS: "list_all segment_ok (R @ ?S)" using R S by simp
  have idx: "index static_options = [''index.html'']" by (simp add: static_options_def)
  from p pipe_accepted(1) [OF R d, of static_options fs]
  consider (a) "sendIndex fs (target R d) [''index.html''] = SFile q bytes"
    | (b) "sendFile static_options fs (target R d) = SFile q bytes"
    by (auto simp: idx split: if_splits)
  then show ?thesis
  proof cases
    case a
    then have q: "q = path_join [target R d, ''index.html'']" "fs q = Some (File bytes)"
      using sendIndex_SFile by blast+
    have "path_join [target R d, ''index.html''] = abs_path (R @ ?S @ [''index.html''])"
      using target_cases [of R d] index_path [OF RS, of "[]"] index_path [OF RS, of "[slash]"]
      by auto
    moreover have "list_all segment_ok (?S @ [''index.html''])"
      using S by (simp add: segment_ok_def slash_def dot_def)
    ultimately show ?thesis using q by blast
  next
    case b
    from sendFile_SFile [OF b]
    have fq: "fs q = Some (File bytes)"
      and alt: "q = target R d \<and> strip_trailing (target R d) = target R d \<or>
        q = target R d @ ''.html'' \<and> last (target R d) \<noteq> slash
          \<and> fs (strip_trailing (target R d)) = None"
      by blast+
    have nodir: "target R d = abs_path (R @ ?S)"
      if "strip_trailing (target R d) = target R d \<or> last (target R d) \<noteq> slash"
    proof (rule ccontr)
      assume "target R d \<noteq> abs_path (R @ ?S)"
      then have t: "target R d = abs_path (R @ ?S) @ [slash]"
        using target_cases [of R d] by blast
      then have "strip_trailing (target R d) \<noteq> target R d" "last (target R d) = slash"
        by (simp_all add: strip_trailing_dir)
      then show False using that by blast
    qed
    from alt show ?thesis
    proof
      assume "q = target R d \<and> strip_trailing (target R d) = target R d"
      then have "q = abs_path (R @ ?S)" using nodir by simp
      then show ?thesis using fq S by (cases "?S = []") auto
    next
      assume e: "q = target R d @ ''.html'' \<and> last (target R d) \<noteq> slash
          \<and> fs (strip_trailing (target R d)) = None"
      then have t: "target R d = abs_path (R @ ?S)" using nodir by simp
      have ne: "R @ ?S \<noteq> []"
      proof
        assume "R @ ?S = []"
        then have "target R d = [slash]" using t by (simp add: abs_path_def)
        then show False using e by simp
      qed
      have st: "strip_trailing (abs_path (R @ ?S)) = abs_path (R @ ?S)"
        using e t by (simp add: strip_trailing_def)
      show ?thesis
      proof (cases "?S = []")
        case True
        then show ?thesis using e t st ne fq by simp
      next
        case False
        have "q = abs_path (butlast (R @ ?S) @ [last (R @ ?S) @ ''.html''])"
          using e t ne abs_path_ext [of "R @ ?S" "''.html''"] by simp
        then have "q = abs_path (R @ (butlast ?S @ [last ?S @ ''.html'']))"
          using False by (simp add: butlast_append)
        moreover have "list_all segment_ok (butlast ?S @ [last ?S @ ''.html''])"
          using S False by (rule clean_ext)
        ultimately show ?thesis using fq by blast
      qed
    qed
  qed
qed

lemma normalizeString_bottom:
  "res \<noteq> [] \<Longrightarrow> last res = [dot, dot] \<Longrightarrow>
   normalizeString True res segs \<noteq> [] \<and> hd (normalizeString True res segs) = [dot, dot]"
proof (induction segs arbitrary: res)
  case Nil
  then show ?case by (simp add: hd_rev)
next
  case (Cons s ss)
  show ?case
  proof (cases res)
    case Nil then show ?thesis using Cons.prems by simp
  next
    case (Cons r rs)
    have 1: "s # res \<noteq> [] \<and> last (s # res) = [dot, dot]" using Cons.prems by simp
    have 2: "r \<noteq> [dot, dot] \<Longrightarrow> rs \<noteq> [] \<and> last rs = [dot, dot]"
      using Cons.prems Cons by (cases rs) auto
    show ?thesis
    proof (cases "s = [] \<or> s = [dot]")
      case True
      then show ?thesis using Cons.IH [of res] Cons.prems by auto
    next
      case nskip: False
      show ?thesis
      proof (cases "s = [dot, dot]")
        case False
        then show ?thesis using Cons.IH [of "s # res"] 1 nskip by simp
      next
        case True
        show ?thesis
        proof (cases "r = [dot, dot]")
          case True
          then show ?thesis using Cons.IH [of "s # res"] 1 \<open>s = [dot, dot]\<close> Cons by simp
        next
          case False
          then show ?thesis using Cons.IH [of rs] 2 \<open>s = [dot, dot]\<close> Cons by simp
        qed
      qed
    qed
  qed
qed

lemma normalizeString_under:
  assumes "list_all segment_ok res" "segment_ok w" "list_all (\<lambda>s. slash \<notin> set s) segs"
  shows "normalizeString True (res @ [w]) segs = w # normalizeString True res segs \<or>
     (normalizeString True res segs \<noteq> [] \<and> hd (normalizeString True res segs) = [dot, dot])"
  using assms
proof (induction segs arbitrary: res)
  case Nil
  then show ?case by simp
next
  case (Cons s ss)
  have ss: "list_all (\<lambda>s. slash \<notin> set s) ss" using Cons.prems by simp
  show ?case
  proof (cases "s = [] \<or> s = [dot]")
    case True
    then show ?thesis using Cons.IH [OF Cons.prems(1,2) ss] by auto
  next
    case nskip: False
    show ?thesis
    proof (cases "s = [dot, dot]")
      case False
      then have "segment_ok s" using nskip Cons.prems by (simp add: segment_ok_def)
      then have "list_all segment_ok (s # res)" using Cons.prems by simp
      from Cons.IH [OF this Cons.prems(2) ss] show ?thesis using False nskip by simp
    next
      case True
      show ?thesis
      proof (cases res)
        case Nil
        have w: "w \<noteq> [dot, dot]" using Cons.prems by (simp add: segment_ok_def)
        have "normalizeString True [[dot, dot]] ss \<noteq> [] \<and>
          hd (normalizeString True [[dot, dot]] ss) = [dot, dot]"
          by (rule normalizeString_bottom) simp_all
        then show ?thesis using True Nil w by simp
      next
        case (Cons r rs)
        then have "segment_ok r" and rs: "list_all segment_ok rs"
          using Cons.prems by simp_all
        then have r: "r \<noteq> [dot, dot]" "list_all segment_ok rs"
          by (simp_all add: segment_ok_def)
        from Cons.IH [OF r(2) Cons.prems(2) ss] show ?thesis using True Cons r by simp
      qed
    qed
  qed
qed

lemma up_path_skip:
  "list_all (\<lambda>c. c \<noteq> dot \<and> c \<noteq> slash \<and> c \<noteq> backslash) w \<Longrightarrow> w \<noteq> [] \<Longrightarrow>
   up_path_from b (w @ x) = up_path_from False x"
proof (induction w arbitrary: b)
  case Nil then show ?case by simp
next
  case (Cons c cs)
  then show ?case by (cases cs) auto
qed

lemma up_path_word:
  assumes "list_all (\<lambda>c. c \<noteq> dot \<and> c \<noteq> slash \<and> c \<noteq> backslash) w" "w \<noteq> []"
  shows "\<not> up_path w" "\<not> up_path (w @ [slash])" "up_path (w @ slash # y) = up_path y"
  using up_path_skip [OF assms, of True "[]"] up_path_skip [OF assms, of True "[slash]"]
    up_path_skip [OF assms, of True "slash # y"]
  by (simp_all add: up_path_def)

lemma tokens_append:
  "list_all (\<lambda>c. c \<noteq> percent) a \<Longrightarrow>
   tokens (a @ b) = (case tokens b of None \<Rightarrow> None | Some ts \<Rightarrow> Some (map Raw a @ ts))"
  by (induction a) (auto split: option.splits)

lemma assemble_raw:
  "list_all (\<lambda>c. (of_char c :: nat) < 128) a \<Longrightarrow>
   assemble [] 0 (map Raw a @ ts) =
     (case assemble [] 0 ts of None \<Rightarrow> None | Some r \<Rightarrow> Some (a @ r))"
  by (induction a) (auto simp: utf8_of_latin1_def split: option.splits)

lemma decode_append:
  assumes "list_all (\<lambda>c. (of_char c :: nat) < 128 \<and> c \<noteq> percent) a"
  shows "decodeURIComponent (a @ b) =
     (case decodeURIComponent b of None \<Rightarrow> None | Some r \<Rightarrow> Some (a @ r))"
proof -
  have 1: "list_all (\<lambda>c. c \<noteq> percent) a" "list_all (\<lambda>c. (of_char c :: nat) < 128) a"
    using assms by (simp_all add: list_all_iff)
  show ?thesis
    by (cases "tokens b")
      (simp_all add: decodeURIComponent_def tokens_append [OF 1(1)] assemble_raw [OF 1(2)])
qed

lemma decode_plain:
  "list_all (\<lambda>c. (of_char c :: nat) < 128 \<and> c \<noteq> percent) a \<Longrightarrow> decodeURIComponent a = Some a"
  using decode_append [of a "[]"] by (simp add: decodeURIComponent_def)

lemma word_facts:
  assumes "word w"
  shows "segment_ok w" "list_all (\<lambda>c. c \<noteq> dot \<and> c \<noteq> slash \<and> c \<noteq> backslash) w"
    "list_all (\<lambda>c. (of_char c :: nat) < 128 \<and> c \<noteq> percent) w" "w \<noteq> []" "slash \<notin> set w"
  using assms by (auto simp: word_def segment_ok_def list_all_iff)

lemma slash_ascii: "(of_char slash :: nat) < 128 \<and> slash \<noteq> percent"
  by (simp add: slash_def percent_def)

lemma word_not_traversal:
  assumes "word w" "t = [] \<or> t = [slash]"
  shows "\<not> traversal (slash # w @ t)"
proof -
  let ?d = "slash # w @ t"
  have "list_all (\<lambda>c. (of_char c :: nat) < 128 \<and> c \<noteq> percent) ?d"
    using word_facts(3) [OF assms(1)] assms(2) slash_ascii by auto
  then have dec: "decodeURIComponent ?d = Some ?d" by (rule decode_plain)
  have sp: "split_sep (w @ t) = w # (if t = [] then [] else [[]])"
    using assms(2) word_facts(5) [OF assms(1)] split_sep_append [of w "[]"]
    by (auto simp: split_sep_noslash)
  have S: "normalizeString True [] (split_sep ?d) = [w]"
    using word_facts(1) [OF assms(1)] by (simp add: sp segment_ok_def)
  have "normalize (dot # slash # ?d) =
    (let S = normalizeString True [] (split_sep ?d)
     in if join_sep S = [] then (if last ?d = slash then [dot, slash] else [dot])
        else join_sep S @ (if last ?d = slash then [slash] else []))"
    by (rule normalize_rel) simp
  then have "normalize (dot # slash # ?d) = w @ t"
    unfolding S Let_def
    using assms(2) word_facts(4) [OF assms(1)] segment_last [OF word_facts(1) [OF assms(1)]]
    by auto
  then show ?thesis
    using dec up_path_word(1,2) [OF word_facts(2) [OF assms(1)] word_facts(4) [OF assms(1)]] assms(2)
    by (auto simp: traversal_def)
qed

lemma lower_letter:
  assumes "toLower c = x" "97 \<le> (of_char x :: nat)" "(of_char x :: nat) \<le> 122"
  shows "(of_char c :: nat) < 128 \<and> c \<noteq> dot \<and> c \<noteq> slash \<and> c \<noteq> backslash \<and> c \<noteq> percent"
proof -
  have v: "(of_char dot :: nat) = 46" "(of_char slash :: nat) = 47"
    "(of_char backslash :: nat) = 92" "(of_char percent :: nat) = 37"
    by (simp_all add: dot_def slash_def backslash_def percent_def)
  show ?thesis
  proof (cases "65 \<le> (of_char c :: nat) \<and> (of_char c :: nat) \<le> 90")
    case True
    then show ?thesis using v by auto
  next
    case False
    then have "c = x" using assms(1) by (auto simp: toLower_def Let_def split: if_splits)
    then show ?thesis using assms(2,3) v by auto
  qed
qed

lemma lower_word:
  assumes "map toLower w = v" "v \<noteq> []"
    "list_all (\<lambda>x. 97 \<le> (of_char x :: nat) \<and> (of_char x :: nat) \<le> 122) v"
  shows "word w"
proof -
  have "\<forall>c\<in>set w. (of_char c :: nat) < 128 \<and> c \<noteq> dot \<and> c \<noteq> slash \<and> c \<noteq> backslash \<and> c \<noteq> percent"
  proof
    fix c assume "c \<in> set w"
    then have "toLower c \<in> set v" using assms(1) by auto
    then have "97 \<le> (of_char (toLower c) :: nat) \<and> (of_char (toLower c) :: nat) \<le> 122"
      using assms(3) by (simp add: list_all_iff)
    then show "(of_char c :: nat) < 128 \<and> c \<noteq> dot \<and> c \<noteq> slash \<and> c \<noteq> backslash \<and> c \<noteq> percent"
      using lower_letter [of c "toLower c"] by simp
  qed
  moreover have "w \<noteq> []" using assms(1,2) by auto
  ultimately show ?thesis by (simp add: word_def list_all_iff)
qed

lemma match_use_web:
  "match_use ''/web'' p =
     (if map toLower (take 4 p) = ''/web'' \<and> (drop 4 p = [] \<or> hd (drop 4 p) = slash)
      then Some (if drop 4 p = [] \<or> drop 4 p = [slash] then [slash]
                 else if take 2 (drop 4 p) = [slash, slash] then tl (drop 4 p)
                 else drop 4 p)
      else None)"
proof -
  have lw: "map toLower ''/web'' = ''/web''" by (simp add: toLower_def)
  have len: "length ''/web'' = 4" by simp
  have ns: "(''/web'' = [slash]) = False" by simp
  show ?thesis unfolding match_use_def Let_def lw len ns if_False ..
qed

lemma match_web:
  assumes "match_use ''/web'' p = Some url"
  shows "\<exists>w rest. p = slash # w @ rest \<and> word w \<and> (rest = [] \<or> hd rest = slash) \<and>
     url = (if rest = [] \<or> rest = [slash] then [slash]
            else if take 2 rest = [slash, slash] then tl rest else rest)"
proof -
  let ?pfx = "take 4 p" and ?rest = "drop 4 p"
  have m: "map toLower ?pfx = ''/web''" and r: "?rest = [] \<or> hd ?rest = slash"
    and u: "url = (if ?rest = [] \<or> ?rest = [slash] then [slash]
            else if take 2 ?rest = [slash, slash] then tl ?rest else ?rest)"
    using assms unfolding match_use_web by (auto split: if_splits)
  from m obtain a w where pw: "?pfx = a # w" "toLower a = CHR ''/''" "map toLower w = ''web''"
    by (cases ?pfx) auto
  have "a = slash" using pw(2) toLower_slash [of a] by (simp add: slash_def)
  moreover have "word w" using pw(3) by (rule lower_word) simp_all
  moreover have "p = ?pfx @ ?rest" by simp
  ultimately show ?thesis using pw(1) r u by (metis append_Cons)
qed

lemma join_sep_nonempty: "list_all (\<lambda>s. s \<noteq> []) B \<Longrightarrow> (join_sep B = []) = (B = [])"
  by (cases B) (auto simp: join_sep_Cons)

lemma pipe_rejected:
  assumes "decodeURIComponent path = Some d" "d \<noteq> []" "up_path (normalize (dot # slash # d))"
  shows "pipe opts root fs path = SError 400 \<or> pipe opts root fs path = SError 403"
  using assms by (simp add: pipe_def Let_def)

lemma serveStatic_rejected:
  assumes "pipe opts (resolve root) fs path = SError 400 \<or> pipe opts (resolve root) fs path = SError 403"
    and "(if url = [slash] \<and> \<not> hasTrailingSlash originalUrl then [] else url) = path"
  shows "serveStatic root opts fs originalUrl url = None"
  using assms by (auto simp: serveStatic_def Let_def)

lemma traversal_direct:
  assumes "traversal p"
  shows "serveStatic root opts fs p p = None"
proof -
  obtain d where d: "decodeURIComponent p = Some d" "d \<noteq> []" "up_path (normalize (dot # slash # d))"
    using assms by (auto simp: traversal_def split: option.splits)
  show ?thesis
    by (rule serveStatic_rejected [OF pipe_rejected [OF d]]) (auto simp: hasTrailingSlash_def)
qed

lemma traversal_mounted:
  assumes trav: "traversal p" and m: "match_use ''/web'' p = Some url"
  shows "serveStatic root opts fs p url = None"
proof -
  from match_web [OF m] obtain w rest where p: "p = slash # w @ rest" and w: "word w"
    and rest: "rest = [] \<or> hd rest = slash"
    and url: "url = (if rest = [] \<or> rest = [slash] then [slash]
            else if take 2 rest = [slash, slash] then tl rest else rest)"
    by blast
  have "rest \<noteq> [] \<and> rest \<noteq> [slash]"
    using word_not_traversal [OF w, of rest] trav p by auto
  then obtain r where r: "rest = slash # r" "r \<noteq> []"
    using rest by (cases rest) auto
  obtain d where d: "decodeURIComponent p = Some d" "d \<noteq> []"
      "up_path (normalize (dot # slash # d))"
    using trav by (auto simp: traversal_def split: option.splits)
  have asc: "list_all (\<lambda>c. (of_char c :: nat) < 128 \<and> c \<noteq> percent) (slash # w @ [slash])"
    using word_facts(3) [OF w] slash_ascii by simp
  have "decodeURIComponent p =
      (case decodeURIComponent r of None \<Rightarrow> None | Some t \<Rightarrow> Some ((slash # w @ [slash]) @ t))"
    using decode_append [OF asc, of r] p r by simp
  then obtain t where t: "decodeURIComponent r = Some t" "d = slash # w @ slash # t"
    using d(1) by (auto split: option.splits)
  define B where "B = normalizeString True [] (split_sep t)"
  define tr where "tr = (if last (slash # t) = slash then [slash] else [])"
  have wok: "segment_ok w" using word_facts(1) [OF w] .
  have "split_sep (w @ slash # t) = w # split_sep t"
    using split_sep_append [of w t] word_facts(5) [OF w] by (simp add: split_sep_noslash)
  then have A: "normalizeString True [] (split_sep d) = normalizeString True [w] (split_sep t)"
    using wok by (simp add: t(2) segment_ok_def)
  have lastd: "last d = last (slash # t)" by (simp add: t(2))
  have nd: "normalize (dot # slash # d) =
    (let S = normalizeString True [w] (split_sep t)
     in if join_sep S = [] then (if last (slash # t) = slash then [dot, slash] else [dot])
        else join_sep S @ tr)"
    using normalize_rel [OF d(2)] unfolding A lastd tr_def .
  have Bne: "list_all (\<lambda>s. s \<noteq> []) B"
    using stack_ok_nonempty [OF normalizeString_stack_ok [of "[]" "split_sep t"]]
      split_sep_segments [of t] by (simp add: B_def)
  \<comment> \<open>the path the middleware sees\<close>
  have path: "(if url = [slash] \<and> \<not> hasTrailingSlash p then [] else url) = url"
  proof (cases "url = [slash]")
    case True
    then have "r = [slash]" using url r by (auto split: if_splits)
    then show ?thesis using p r by (simp add: hasTrailingSlash_def)
  next
    case False then show ?thesis by simp
  qed
  have "\<exists>du. decodeURIComponent url = Some du \<and> du \<noteq> [] \<and>
      normalizeString True [] (split_sep du) = B \<and> last du = last (slash # t)"
  proof (cases "take 2 rest = [slash, slash]")
    case False
    then have u: "url = slash # r" using url r by simp
    have "decodeURIComponent (slash # r) = Some (slash # t)"
      using decode_append [of "[slash]" r] slash_ascii t(1) by simp
    then show ?thesis using u by (simp add: B_def)
  next
    case True
    then obtain r' where r': "r = slash # r'" using r by (cases r) auto
    then have u: "url = r" using url r True by simp
    have "decodeURIComponent r =
      (case decodeURIComponent r' of None \<Rightarrow> None | Some t' \<Rightarrow> Some ([slash] @ t'))"
      using decode_append [of "[slash]" r'] slash_ascii r' by simp
    then obtain t' where "t = slash # t'" using t(1) by (auto split: option.splits)
    then show ?thesis using u t(1) by (simp add: B_def)
  qed
  then obtain du where du: "decodeURIComponent url = Some du" "du \<noteq> []"
      "normalizeString True [] (split_sep du) = B" "last du = last (slash # t)"
    by blast
  have ndu: "normalize (dot # slash # du) =
     (if join_sep B = [] then (if last (slash # t) = slash then [dot, slash] else [dot])
      else join_sep B @ tr)"
    using normalize_rel [OF du(2)] unfolding du(3) du(4) tr_def Let_def .
  have trc: "tr = [] \<or> tr = [slash]" by (simp add: tr_def)
  have "up_path (normalize (dot # slash # du))"
  proof -
    from normalizeString_under [of "[]" w "split_sep t"] wok split_sep_segments [of t]
    consider (kept) "normalizeString True [w] (split_sep t) = w # B"
      | (popped) "B \<noteq> []" "hd B = [dot, dot]"
      by (auto simp: B_def)
    then show ?thesis
    proof cases
      case popped
      then have "join_sep B \<noteq> []" using Bne by (simp add: join_sep_nonempty)
      then show ?thesis using up_path_dotdot [OF popped trc] by (simp add: ndu)
    next
      case kept
      have wl: "list_all (\<lambda>c. c \<noteq> dot \<and> c \<noteq> slash \<and> c \<noteq> backslash) w" "w \<noteq> []"
        using word_facts(2,4) [OF w] by simp_all
      show ?thesis
      proof (cases "B = []")
        case True
        then have "normalize (dot # slash # d) = w @ tr"
          using nd kept wl(2) by (simp add: Let_def)
        then show ?thesis using d(3) up_path_word(1,2) [OF wl] trc by auto
      next
        case False
        then have jb: "join_sep B \<noteq> []" using Bne by (simp add: join_sep_nonempty)
        have "normalize (dot # slash # d) = w @ slash # (join_sep B @ tr)"
          using nd kept False wl(2) by (simp add: Let_def join_sep_Cons)
        then have "up_path (join_sep B @ tr)" using d(3) up_path_word(3) [OF wl] by simp
        then show ?thesis using jb by (simp add: ndu)
      qed
    qed
  qed
  from serveStatic_rejected [OF pipe_rejected [OF du(1,2) this] path] show ?thesis .
qed

lemma traversal_routes:
  assumes "traversal p"
  shows "snd (dispatch [health, root_redirect] i p) = Not_Found"
proof -
  have 1: "map toLower p \<noteq> ''/health''"
  proof
    assume h: "map toLower p = ''/health''"
    then obtain a w where pw: "p = a # w" "toLower a = CHR ''/''" "map toLower w = ''health''"
      by (cases p) auto
    have "a = slash" using pw(2) toLower_slash [of a] by (simp add: slash_def)
    moreover have "word w" using pw(3) by (rule lower_word) simp_all
    ultimately show False using word_not_traversal [of w "[]"] assms pw(1) by simp
  qed
  have 2: "map toLower p \<noteq> ''/health/''"
  proof
    assume h: "map toLower p = ''/health/''"
    then obtain a q where pw: "p = a # q" "toLower a = CHR ''/''" "map toLower q = ''health/''"
      by (cases p) auto
    from pw(3) obtain w b where qw: "q = w @ [b]" "map toLower w = ''health''" "toLower b = CHR ''/''"
      by (cases q rule: rev_cases) auto
    have "a = slash" "b = slash"
      using pw(2) qw(3) toLower_slash [of a] toLower_slash [of b] by (simp_all add: slash_def)
    moreover have "word w" using qw(2) by (rule lower_word) simp_all
    ultimately show False using word_not_traversal [of w "[slash]"] assms pw(1) qw(1) by simp
  qed
  have 3: "\<not> traversal ''/''" by code_simp
  have 4: "\<not> traversal []" by code_simp
  show ?thesis using 1 2 3 4 assms by (auto simp: dispatch_routes)
qed

lemma under_abs:
  assumes "list_all segment_ok dir" "list_all segment_ok X" "X \<noteq> []"
  shows "under dir (abs_path (dir @ X))"
proof -
  have "split_sep (abs_path (dir @ X)) = [] # (dir @ X)"
    using assms split_abs_path [of "dir @ X"] by simp
  then show ?thesis using assms by (simp add: under_def)
qed

lemma serveStatic_Send_File:
  "serveStatic root opts fs originalUrl url = Some (Send_File q bytes) \<Longrightarrow>
   \<exists>path. pipe opts (resolve root) fs path = SFile q bytes"
  by (auto simp: serveStatic_def Let_def split: send_result.splits if_splits)

lemma served_from_web:
  assumes dir: "list_all segment_ok dir"
    and s: "serveStatic (WEB_DIR (abs_path dir)) static_options fs originalUrl url
              = Some (Send_File q bytes)"
  shows "under dir q \<and> fs q = Some (File bytes)"
proof -
  have w: "segment_ok ''web''" by (simp add: segment_ok_def slash_def dot_def)
  then have R: "list_all segment_ok (dir @ [''web''])" using dir by simp
  from serveStatic_Send_File [OF s] obtain path
    where "pipe static_options (abs_path (dir @ [''web''])) fs path = SFile q bytes"
    using dir R by (auto simp: WEB_DIR_abs resolve_abs)
  from pipe_SFile [OF R this]
  have fq: "fs q = Some (File bytes)"
    and alt: "(\<exists>X. X \<noteq> [] \<and> list_all segment_ok X \<and> q = abs_path ((dir @ [''web'']) @ X)) \<or>
      q = abs_path (dir @ [''web'']) \<or> q = abs_path (dir @ [''web'']) @ ''.html''"
    by blast+
  from alt have "under dir q"
  proof (elim disjE exE conjE)
    fix X assume "list_all segment_ok X" "q = abs_path ((dir @ [''web'']) @ X)"
    then show ?thesis using under_abs [OF dir, of "''web'' # X"] w by simp
  next
    assume "q = abs_path (dir @ [''web''])"
    then show ?thesis using under_abs [OF dir, of "[''web'']"] w by simp
  next
    assume "q = abs_path (dir @ [''web'']) @ ''.html''"
    then have "q = abs_path (dir @ [''web.html''])"
      using abs_path_ext [of "dir @ [''web'']" "''.html''"] by simp
    then show ?thesis using under_abs [OF dir, of "[''web.html'']"] segment_ok_ext [OF w] by simp
  qed
  then show ?thesis using fq by simp
qed

lemma served_from_base:
  assumes dir: "list_all segment_ok dir" and root: "fs (abs_path dir) = Some Directory"
    and s: "serveStatic (abs_path dir) static_options fs originalUrl url
              = Some (Send_File q bytes)"
  shows "under dir q \<and> fs q = Some (File bytes)"
proof -
  from serveStatic_Send_File [OF s] obtain path
    where "pipe static_options (abs_path dir) fs path = SFile q bytes"
    using dir by (auto simp: resolve_abs)
  from pipe_SFile [OF dir this] root
  have fq: "fs q = Some (File bytes)"
    and alt: "\<exists>X. X \<noteq> [] \<and> list_all segment_ok X \<and> q = abs_path (dir @ X)"
    by auto
  then show ?thesis using under_abs [OF dir] by auto
qed

lemma plain_segment_ok: "plain_segment s \<Longrightarrow> segment_ok s"
  by (cases s) (auto simp: plain_segment_def plain_char_def segment_ok_def list_all_iff)

lemma plain_clean: "list_all plain_segment segs \<Longrightarrow> list_all segment_ok segs"
  by (simp add: list_all_iff plain_segment_ok)

lemma plain_up_skip:
  "list_all plain_char cs \<Longrightarrow> up_path_from False (cs @ x) = up_path_from False x"
  by (induction cs) (auto simp: plain_char_def)

lemma plain_segment_up:
  "plain_segment s \<Longrightarrow> up_path_from True (s @ x) = up_path_from False x"
  by (cases s) (auto simp: plain_segment_def plain_char_def plain_up_skip)

lemma plain_not_up:
  "list_all plain_segment segs \<Longrightarrow> t = [] \<or> t = [slash] \<Longrightarrow>
   \<not> up_path_from True (join_sep segs @ t)"
  by (induction segs rule: join_sep.induct) (auto simp: plain_segment_up)

lemma plain_char_ascii:
  "plain_char c \<Longrightarrow> (of_char c :: nat) < 128 \<and> c \<noteq> percent \<and> c \<noteq> CHR 0x00"
  by (auto simp: plain_char_def)

lemma plain_segment_ascii:
  "plain_segment s \<Longrightarrow>
   list_all (\<lambda>c. (of_char c :: nat) < 128 \<and> c \<noteq> percent \<and> c \<noteq> CHR 0x00) s"
  by (auto simp: plain_segment_def list_all_iff dest: plain_char_ascii)

lemma slash_ascii0: "(of_char slash :: nat) < 128 \<and> slash \<noteq> percent \<and> slash \<noteq> CHR 0x00"
  by (simp add: slash_def percent_def)

lemma plain_join_ascii:
  "list_all plain_segment segs \<Longrightarrow>
   list_all (\<lambda>c. (of_char c :: nat) < 128 \<and> c \<noteq> percent \<and> c \<noteq> CHR 0x00) (join_sep segs)"
proof (induction segs rule: join_sep.induct)
  case 1 then show ?case by simp
next
  case (2 s) then show ?case by (simp add: plain_segment_ascii)
next
  case (3 s t ts)
  then show ?case using slash_ascii0 by (simp add: plain_segment_ascii del: join_sep.simps(3))
      (simp add: plain_segment_ascii)
qed

lemma plain_path_ascii:
  assumes "list_all plain_segment segs" "t = [] \<or> t = [slash]"
  shows "list_all (\<lambda>c. (of_char c :: nat) < 128 \<and> c \<noteq> percent) (abs_path segs @ t)"
    and "CHR 0x00 \<notin> set (abs_path segs @ t)"
proof -
  have "list_all (\<lambda>c. (of_char c :: nat) < 128 \<and> c \<noteq> percent \<and> c \<noteq> CHR 0x00)
      (abs_path segs @ t)"
    using plain_join_ascii [OF assms(1)] assms(2) slash_ascii0 by (auto simp: abs_path_def)
  then show "list_all (\<lambda>c. (of_char c :: nat) < 128 \<and> c \<noteq> percent) (abs_path segs @ t)"
    and "CHR 0x00 \<notin> set (abs_path segs @ t)"
    by (auto simp: list_all_iff)
qed

lemma plain_split:
  assumes "list_all plain_segment segs" "t = [] \<or> t = [slash]"
  shows "normalizeString True [] (split_sep (abs_path segs @ t)) = segs"
proof -
  have c: "list_all segment_ok segs" using assms(1) by (rule plain_clean)
  have "split_sep (abs_path segs @ [slash]) = split_sep (abs_path segs) @ [[]]"
    using split_sep_append [of "abs_path segs" "[]"] by simp
  then have "normalizeString True [] (split_sep (abs_path segs @ t))
      = normalizeString True [] (split_sep (abs_path segs))"
    using assms(2) by (auto simp: normalizeString_append)
  also have "\<dots> = segs"
    using c by (auto simp: split_abs_path normalizeString_clean)
  finally show ?thesis .
qed

text \<open>What \<^verbatim>\<open>send\<close> does with a pathname of plain segments.\<close>

lemma pipe_plain:
  assumes R: "list_all segment_ok R" and segs: "list_all plain_segment segs"
    and t: "t = [] \<or> t = [slash]"
  shows "pipe opts (abs_path R) fs (abs_path segs @ t) =
     (if index opts \<noteq> [] \<and> (segs = [] \<or> t = [slash])
      then sendIndex fs (abs_path (R @ segs)
             @ (if R @ segs \<noteq> [] \<and> (segs = [] \<or> t = [slash]) then [slash] else []))
             (index opts)
      else sendFile opts fs (abs_path (R @ segs)
             @ (if R @ segs \<noteq> [] \<and> (segs = [] \<or> t = [slash]) then [slash] else [])))"
proof -
  let ?p = "abs_path segs @ t"
  have c: "list_all segment_ok segs" using segs by (rule plain_clean)
  have dec: "decodeURIComponent ?p = Some ?p"
    using plain_path_ascii(1) [OF segs t] by (rule decode_plain)
  have nul: "CHR 0x00 \<notin> set ?p" using plain_path_ascii(2) [OF segs t] .
  have ne: "?p \<noteq> []" by (simp add: abs_path_def)
  have S: "normalizeString True [] (split_sep ?p) = segs" using plain_split [OF segs t] .
  have lastp: "(last ?p = slash) = (segs = [] \<or> t = [slash])"
    using t c last_abs_path [OF c] by (cases "segs = []") (auto simp: abs_path_def)
  have n: "normalize (dot # slash # ?p) =
     (if segs = [] then [dot, slash] else join_sep segs @ (if t = [slash] then [slash] else []))"
    using normalize_rel [OF ne] c lastp unfolding S Let_def by (auto simp: join_sep_eq_Nil)
  have up: "\<not> up_path (if ?p \<noteq> [] then normalize (dot # slash # ?p) else ?p)"
  proof (cases "segs = []")
    case True
    then show ?thesis using ne n by (simp add: up_path_def)
  next
    case False
    then show ?thesis using ne n plain_not_up [OF segs, of "[]"] plain_not_up [OF segs, of "[slash]"]
      by (auto simp: up_path_def)
  qed
  have ndf: "\<not> dotfile_ignored (split_sep (if ?p \<noteq> [] then normalize (dot # slash # ?p) else ?p))"
  proof (cases "segs = []")
    case True
    have "split_sep [dot, slash] = [[dot], []]"
      using split_sep_append [of "[dot]" "[]"] by (simp add: split_sep_noslash)
    then show ?thesis using True ne n by (simp add: dotfile_ignored_def)
  next
    case False
    have ns: "list_all (\<lambda>s. slash \<notin> set s) segs" using c by (simp add: list_all_iff segment_ok_def)
    have sj: "split_sep (join_sep segs) = segs" using False ns by (simp add: split_sep_join)
    have sj2: "split_sep (join_sep segs @ [slash]) = segs @ [[]]"
      using split_sep_append [of "join_sep segs" "[]"] sj by simp
    have "hd (last segs) \<noteq> dot" using segs False by (simp add: list_all_iff plain_segment_def)
    then show ?thesis using False ne n sj sj2 by (auto simp: dotfile_ignored_def)
  qed
  have tg: "target R ?p = abs_path (R @ segs)
      @ (if R @ segs \<noteq> [] \<and> (segs = [] \<or> t = [slash]) then [slash] else [])"
    using ne lastp by (simp add: target_def S Let_def)
  have ht: "hasTrailingSlash ?p = (segs = [] \<or> t = [slash])"
    using ne lastp by (simp add: hasTrailingSlash_def)
  show ?thesis
    unfolding pipe_accepted(1) [OF R dec nul up] tg ht using ndf by simp
qed

lemma abs_path_plain_stat:
  "list_all segment_ok X \<Longrightarrow> length (abs_path X) \<le> 1 \<or> last (abs_path X) \<noteq> slash"
  by (cases "X = []") (simp_all add: last_abs_path, simp add: abs_path_def)

lemma sendIndex_file:
  assumes "list_all segment_ok X" "t = [] \<or> t = [slash]"
  shows "sendIndex fs (abs_path X @ t) [''index.html''] =
     (case fs (abs_path (X @ [''index.html''])) of
        Some (File bytes) \<Rightarrow> SFile (abs_path (X @ [''index.html''])) bytes
      | _ \<Rightarrow> SError 404)"
proof -
  have "segment_ok ''index.html''" by (simp add: segment_ok_def slash_def dot_def)
  then have "list_all segment_ok (X @ [''index.html''])" using assms(1) by simp
  from stat_plain [OF abs_path_plain_stat [OF this], of fs] show ?thesis
    by (simp add: index_path [OF assms] Let_def split: option.splits node.splits)
qed

lemma sendFile_file:
  "list_all segment_ok X \<Longrightarrow> fs (abs_path X) = Some (File bytes) \<Longrightarrow>
   sendFile opts fs (abs_path X) = SFile (abs_path X) bytes"
  using stat_plain [OF abs_path_plain_stat, of X fs] by (simp add: sendFile_def)


lemma basename_last: "slash \<notin> set s \<Longrightarrow> s \<noteq> [] \<Longrightarrow> basename (pre @ slash # s) = s"
proof -
  assume a: "slash \<notin> set s" "s \<noteq> []"
  then have "hd (rev s) \<noteq> slash" by (metis hd_rev last_in_set)
  then have d: "dropWhile (\<lambda>c. c = slash) (rev s @ slash # rev pre) = rev s @ slash # rev pre"
    using a by (cases "rev s") auto
  have "takeWhile (\<lambda>c. c \<noteq> slash) (rev s @ slash # rev pre) = rev s"
    using a by (auto simp: takeWhile_tail takeWhile_eq_all_conv [THEN iffD2])
  then show ?thesis using d by (simp add: basename_def)
qed

lemma abs_path_last:
  "X \<noteq> [] \<Longrightarrow> \<exists>pre. abs_path X = pre @ slash # last X"
proof (cases "butlast X = []")
  case True
  assume "X \<noteq> []"
  then have "X = [last X]" using True by (metis append_butlast_last_id append_Nil)
  then have "abs_path X = [] @ slash # last X" by (metis abs_path_def append_Nil join_sep.simps(2))
  then show ?thesis by blast
next
  case False
  assume "X \<noteq> []"
  then have "join_sep X = join_sep (butlast X) @ slash # last X"
    using join_sep_snoc [OF False, of "last X"] by simp
  then have "abs_path X = (slash # join_sep (butlast X)) @ slash # last X"
    by (simp add: abs_path_def)
  then show ?thesis by blast
qed

lemma extname_none:
  assumes "list_all segment_ok X" "X \<noteq> []" "dot \<notin> set (last X)"
  shows "extname (abs_path X) = []"
proof -
  have l: "segment_ok (last X)" using assms(1,2) by (simp add: list_all_iff)
  obtain pre where "abs_path X = pre @ slash # last X" using abs_path_last [OF assms(2)] by blast
  then have "basename (abs_path X) = last X"
    using basename_last [of "last X" pre] l by (simp add: segment_ok_def)
  then show ?thesis using assms(3) by (simp add: extname_def Let_def)
qed

lemma sendFile_html:
  assumes "list_all segment_ok X" "X \<noteq> []" "dot \<notin> set (last X)" "fs (abs_path X) = None"
  shows "sendFile static_options fs (abs_path X) =
     (case fs (abs_path X @ ''.html'') of
        Some (File bytes) \<Rightarrow> SFile (abs_path X @ ''.html'') bytes
      | _ \<Rightarrow> SError 404)"
proof -
  have 1: "stat fs (abs_path X) = ENOENT"
    using stat_plain [OF abs_path_plain_stat [OF assms(1)], of fs] assms(4) by simp
  have 2: "last (abs_path X) \<noteq> slash" using last_abs_path [OF assms(1,2)] .
  have "last (abs_path X @ ''.html'') \<noteq> slash" by (simp add: slash_def)
  then have 3: "stat fs (abs_path X @ ''.html'') =
      (case fs (abs_path X @ ''.html'') of None \<Rightarrow> ENOENT | Some Directory \<Rightarrow> IsDirectory
       | Some (File bytes) \<Rightarrow> IsFile bytes)"
    by (intro stat_plain) simp
  show ?thesis
    unfolding sendFile_def 1 using 2 extname_none [OF assms(1-3)]
    by (simp add: static_options_def Let_def 3 dot_def split: option.splits node.splits)
qed

lemma serveStatic_same:
  "serveStatic root opts fs p p =
     (case pipe opts (resolve root) fs p of
        SFile q bytes \<Rightarrow> Some (Send_File q bytes)
      | SDirectory q \<Rightarrow>
          if hasTrailingSlash p then None
          else Some (Redirect 301 (collapseLeadingSlashes (p @ [slash])))
      | SError code \<Rightarrow> if code < 500 then None else Some (Error_Page code))"
  by (auto simp: serveStatic_def Let_def hasTrailingSlash_def)

lemma serveStatic_other:
  "url \<noteq> [slash] \<Longrightarrow>
   serveStatic root opts fs p url =
     (case pipe opts (resolve root) fs url of
        SFile q bytes \<Rightarrow> Some (Send_File q bytes)
      | SDirectory q \<Rightarrow>
          if hasTrailingSlash url then None
          else Some (Redirect 301 (collapseLeadingSlashes (p @ [slash])))
      | SError code \<Rightarrow> if code < 500 then None else Some (Error_Page code))"
  by (simp add: serveStatic_def Let_def)

lemma match_use_all: "match_use ''/'' p = Some p"
  by (simp add: match_use_def slash_def)

lemma match_web_plain:
  assumes "list_all plain_segment segs" "segs \<noteq> []"
  shows "match_use ''/web'' (''/web'' @ abs_path segs @ t) = Some (abs_path segs @ t)"
proof -
  obtain s ss where segs: "segs = s # ss" using assms(2) by (cases segs) auto
  then obtain c cs where s: "s = c # cs" "c \<noteq> slash"
    using assms(1) by (cases s) (auto simp: plain_segment_def plain_char_def)
  have lw: "map toLower ''/web'' = ''/web''" by (simp add: toLower_def)
  have a: "abs_path segs @ t = slash # c # (cs @ (if ss = [] then [] else slash # join_sep ss) @ t)"
    using segs s by (simp add: abs_path_def join_sep_Cons)
  show ?thesis
    unfolding match_use_web a using lw s(2) by simp
qed


lemma web_root:
  assumes "list_all segment_ok dir"
  shows "resolve (WEB_DIR (abs_path dir)) = abs_path (dir @ [''web''])"
    and "list_all segment_ok (dir @ [''web''])"
proof -
  have "segment_ok ''web''" by (simp add: segment_ok_def slash_def dot_def)
  then show "list_all segment_ok (dir @ [''web''])" using assms by simp
  then show "resolve (WEB_DIR (abs_path dir)) = abs_path (dir @ [''web''])"
    using assms by (simp add: WEB_DIR_abs resolve_abs)
qed

lemma strategy1_none: "match_use ''/web'' p = None \<Longrightarrow> run_layer (strategy1 d fs) p = None"
  by (simp add: strategy1_def use_def)

lemma strategy1_plain:
  assumes "list_all segment_ok dir" "list_all plain_segment segs" "segs \<noteq> []"
    and p: "p = ''/web'' @ abs_path segs @ t"
  shows "run_layer (strategy1 (abs_path dir) fs) p =
     (case pipe static_options (abs_path (dir @ [''web''])) fs (abs_path segs @ t) of
        SFile q bytes \<Rightarrow> Some (Send_File q bytes)
      | SDirectory q \<Rightarrow>
          if hasTrailingSlash (abs_path segs @ t) then None
          else Some (Redirect 301 (collapseLeadingSlashes (p @ [slash])))
      | SError code \<Rightarrow> if code < 500 then None else Some (Error_Page code))"
proof -
  have "join_sep segs \<noteq> []"
    using assms(2,3) plain_clean join_sep_eq_Nil by blast
  then have ne: "abs_path segs @ t \<noteq> [slash]" by (simp add: abs_path_def)
  have m: "match_use ''/web'' p = Some (abs_path segs @ t)"
    unfolding p by (rule match_web_plain [OF assms(2,3)])
  show ?thesis
    unfolding strategy1_def use_def run_layer.simps m
    using serveStatic_other [OF ne] web_root(1) [OF assms(1)] by simp
qed

lemma strategy2_run:
  assumes "list_all segment_ok dir"
  shows "run_layer (strategy2 (abs_path dir) fs) p =
     (case pipe static_options (abs_path (dir @ [''web''])) fs p of
        SFile q bytes \<Rightarrow> Some (Send_File q bytes)
      | SDirectory q \<Rightarrow>
          if hasTrailingSlash p then None
          else Some (Redirect 301 (collapseLeadingSlashes (p @ [slash])))
      | SError code \<Rightarrow> if code < 500 then None else Some (Error_Page code))"
  unfolding strategy2_def use_def run_layer.simps match_use_all
  using serveStatic_same web_root(1) [OF assms] by simp

lemma strategy3_run:
  assumes "list_all segment_ok dir"
  shows "run_layer (strategy3 (abs_path dir) fs) p =
     (case pipe static_options (abs_path dir) fs p of
        SFile q bytes \<Rightarrow> Some (Send_File q bytes)
      | SDirectory q \<Rightarrow>
          if hasTrailingSlash p then None
          else Some (Redirect 301 (collapseLeadingSlashes (p @ [slash])))
      | SError code \<Rightarrow> if code < 500 then None else Some (Error_Page code))"
  unfolding strategy3_def use_def run_layer.simps match_use_all
  using serveStatic_same resolve_abs [OF assms] by simp

lemma static_index: "index static_options = [''index.html'']"
  by (simp add: static_options_def)

lemma is_file_case:
  "\<not> is_file fs p \<Longrightarrow>
   (case fs p of Some (File bytes) \<Rightarrow> f bytes | _ \<Rightarrow> g) = g"
  by (auto simp: is_file_def split: option.splits node.splits)

text \<open>The root path under a root with segments \<open>R\<close>: the index file or nothing.\<close>

lemma pipe_root:
  assumes "list_all segment_ok R"
  shows "pipe static_options (abs_path R) fs ''/'' =
     (case fs (abs_path (R @ [''index.html''])) of
        Some (File bytes) \<Rightarrow> SFile (abs_path (R @ [''index.html''])) bytes
      | _ \<Rightarrow> SError 404)"
proof -
  have "''/'' = abs_path [] @ []" by (simp add: abs_path_def slash_def)
  then have "pipe static_options (abs_path R) fs ''/'' =
      sendIndex fs (abs_path R @ (if R \<noteq> [] then [slash] else [])) [''index.html'']"
    using pipe_plain [OF assms, of "[]" "[]" static_options fs] by (simp add: static_index)
  then show ?thesis using sendIndex_file [OF assms, of "if R \<noteq> [] then [slash] else []" fs]
    by simp
qed

lemma not_web_root: "match_use ''/web'' ''/'' = None"
  by (simp add: match_use_web)


lemma pipe_root_none:
  "list_all segment_ok R \<Longrightarrow> \<not> is_file fs (abs_path (R @ [''index.html''])) \<Longrightarrow>
   pipe static_options (abs_path R) fs ''/'' = SError 404"
  by (auto simp: pipe_root is_file_def split: option.splits node.splits)



lemma pipe_plain_file:
  assumes "list_all segment_ok R" "list_all plain_segment segs" "segs \<noteq> []"
  shows "pipe static_options (abs_path R) fs (abs_path segs) =
     sendFile static_options fs (abs_path (R @ segs))"
  using pipe_plain [OF assms(1,2), of "[]" static_options fs] assms(3) by simp




lemma pipe_plain_html:
  assumes "list_all segment_ok R" "list_all plain_segment segs" "segs \<noteq> []"
    "dot \<notin> set (last segs)" "fs (abs_path (R @ segs)) = None"
    "fs (abs_path (R @ segs) @ ''.html'') = Some (File bytes)"
  shows "pipe static_options (abs_path R) fs (abs_path segs)
           = SFile (abs_path (R @ segs) @ ''.html'') bytes"
proof -
  have c: "list_all segment_ok (R @ segs)" using assms(1) plain_clean [OF assms(2)] by simp
  have "sendFile static_options fs (abs_path (R @ segs)) =
      (case fs (abs_path (R @ segs) @ ''.html'') of
        Some (File bytes) \<Rightarrow> SFile (abs_path (R @ segs) @ ''.html'') bytes
      | _ \<Rightarrow> SError 404)"
    using assms(3,4)
    by (intro sendFile_html [where fs = fs and X = "R @ segs", OF c _ _ assms(5)]) simp_all
  then show ?thesis using pipe_plain_file [OF assms(1-3), of fs] assms(6) by simp
qed



lemma takeWhile_segment:
  "slash \<notin> set s \<Longrightarrow> x = [] \<or> hd x = slash \<Longrightarrow> takeWhile (\<lambda>c. c \<noteq> slash) (s @ x) = s"
  by (cases x) (auto simp: takeWhile_tail takeWhile_eq_all_conv [THEN iffD2])

lemma toLower_not_slash: "toLower a = c \<Longrightarrow> c \<noteq> slash \<Longrightarrow> a \<noteq> slash"
  using toLower_slash [of a] by auto

lemma not_mounted:
  assumes "slash \<notin> set s" "map toLower s \<noteq> ''web''" "x = [] \<or> hd x = slash"
  shows "match_use ''/web'' (slash # s @ x) = None"
proof (rule ccontr)
  assume "match_use ''/web'' (slash # s @ x) \<noteq> None"
  then have m: "map toLower (take 4 (slash # s @ x)) = ''/web''"
    and r: "drop 4 (slash # s @ x) = [] \<or> hd (drop 4 (slash # s @ x)) = slash"
    unfolding match_use_web by (auto split: if_splits)
  from m have m3: "map toLower (take 3 (s @ x)) = ''web''" by simp
  obtain a b c y where y: "s @ x = a # b # c # y"
  proof (cases "s @ x")
    case Nil then show ?thesis using m3 by simp
  next
    case (Cons a l1)
    show ?thesis
    proof (cases l1)
      case Nil then show ?thesis using m3 Cons by simp
    next
      case (Cons b l2)
      show ?thesis
      proof (cases l2)
        case Nil then show ?thesis using m3 \<open>s @ x = a # l1\<close> \<open>l1 = b # l2\<close> by simp
      next
        case (Cons c y)
        then show ?thesis using that \<open>s @ x = a # l1\<close> \<open>l1 = b # l2\<close> by simp
      qed
    qed
  qed
  have abc: "toLower a = CHR ''w''" "toLower b = CHR ''e''" "toLower c = CHR ''b''"
    using m3 y by simp_all
  have ns: "a \<noteq> slash" "b \<noteq> slash" "c \<noteq> slash"
    using abc by (auto dest!: toLower_not_slash simp: slash_def)
  have "y = [] \<or> hd y = slash" using r y by simp
  then have "takeWhile (\<lambda>c. c \<noteq> slash) (a # b # c # y) = [a, b, c]"
    using ns by (cases y) auto
  then have "s = [a, b, c]" using takeWhile_segment [OF assms(1,3)] y by simp
  then show False using abc assms(2) by simp
qed

section \<open>The root path\<close>

text \<open>
  C1, as the claim states it, fails: the static lookups run before the route, so when
  the web directory holds an \<^verbatim>\<open>index.html\<close> the request \<^verbatim>\<open>GET /\<close> is answered
  with that file and status 200, not with a redirect.
\<close>

theorem root_redirect_counterexample:
  "app ''/app'' (map_of [(''/app/web/index.html'', File ''I'')]) ''/''
     = Send_File ''/app/web/index.html'' ''I''
   \<and> status (app ''/app'' (map_of [(''/app/web/index.html'', File ''I'')]) ''/'') = 200
   \<and> status (app ''/app'' (map_of [(''/app/web/index.html'', File ''I'')]) ''/'') \<noteq> 302"
  by code_simp

text \<open>
  C1, amended.  For a GET request to the exact path \<^verbatim>\<open>/\<close>, whenever neither the
  web directory nor the base directory holds a file \<^verbatim>\<open>index.html\<close>, the server
  responds with status 302 and the target exactly \<^verbatim>\<open>/web/buyer/\<close>, for every
  other state of the file system and whether or not the target exists.
\<close>

theorem root_redirect_when_no_index:
  assumes "list_all segment_ok dir"
    and "\<not> is_file fs (abs_path (dir @ [''web'', ''index.html'']))"
    and "\<not> is_file fs (abs_path (dir @ [''index.html'']))"
  shows "app (abs_path dir) fs ''/'' = Redirect 302 ''/web/buyer/''
    \<and> status (app (abs_path dir) fs ''/'') = 302"
proof -
  have 1: "run_layer (strategy1 (abs_path dir) fs) ''/'' = None"
    by (rule strategy1_none [OF not_web_root])
  have 2: "run_layer (strategy2 (abs_path dir) fs) ''/'' = None"
    unfolding strategy2_run [OF assms(1)]
    using pipe_root_none [OF web_root(2) [OF assms(1)], of fs] assms(2) by simp
  have 3: "run_layer (strategy3 (abs_path dir) fs) ''/'' = None"
    unfolding strategy3_run [OF assms(1)]
    using pipe_root_none [OF assms(1), of fs] assms(3) by simp
  show ?thesis by (simp add: app_chain 1 2 3 dispatch_routes toLower_def)
qed

theorem root_redirect_when_no_index_witness:
  "app ''/app'' (map_of [(''/app/web/x'', File ''X'')]) ''/'' = Redirect 302 ''/web/buyer/''
   \<and> status (app ''/app'' (map_of [(''/app/web/x'', File ''X'')]) ''/'') = 302"
proof -
  let ?fs = "map_of [(''/app/web/x'', File ''X'')]"
  have d: "list_all segment_ok [''app'']" by code_simp
  have a: "abs_path [''app''] = ''/app''" by code_simp
  have 1: "\<not> is_file ?fs (abs_path ([''app''] @ [''web'', ''index.html'']))" by code_simp
  have 2: "\<not> is_file ?fs (abs_path ([''app''] @ [''index.html'']))" by code_simp
  show ?thesis
    using root_redirect_when_no_index [where fs = ?fs and dir = "[''app'']", OF d 1 2]
    unfolding a .
qed

section \<open>The health check\<close>



section \<open>The order of the lookups\<close>



section \<open>Files below the web directory\<close>

text \<open>
  C4, as the claim states it, fails: \<^verbatim>\<open>send\<close> ignores a path whose last part
  starts with a dot (the \<^verbatim>\<open>dotfiles\<close> option keeps its default), so the file
  \<^verbatim>\<open>.env\<close> of the web directory is not served under \<^verbatim>\<open>/web/.env\<close>; the request
  falls through all lookups to the final 404.
\<close>

theorem web_file_counterexample:
  "map_of [(''/app/web/.env'', File ''SECRET'')]
     (path_join [WEB_DIR ''/app'', drop 4 ''/web/.env'']) = Some (File ''SECRET'')
   \<and> app ''/app'' (map_of [(''/app/web/.env'', File ''SECRET'')]) ''/web/.env'' = Not_Found
   \<and> status (app ''/app'' (map_of [(''/app/web/.env'', File ''SECRET'')]) ''/web/.env'') \<noteq> 200"
  by code_simp

text \<open>
  C4, amended.  For every request path \<open>p\<close> that is \<^verbatim>\<open>/web/\<close> followed by plain
  segments (printable ASCII without separator, backslash, \<^verbatim>\<open>%\<close>, \<^verbatim>\<open>?\<close> and
  \<^verbatim>\<open>#\<close>, none starting with a dot) such that a regular file exists in the web
  directory at \<open>p\<close> without the \<^verbatim>\<open>/web\<close> prefix, a GET on \<open>p\<close> returns 200 with
  exactly that file's bytes as the body.
\<close>

theorem web_file_served:
  assumes "list_all segment_ok dir" and "list_all plain_segment segs" and "segs \<noteq> []"
    and "fs (abs_path (dir @ ''web'' # segs)) = Some (File bytes)"
  shows "app (abs_path dir) fs (''/web'' @ abs_path segs)
           = Send_File (abs_path (dir @ ''web'' # segs)) bytes
    \<and> status (app (abs_path dir) fs (''/web'' @ abs_path segs)) = 200
    \<and> body (app (abs_path dir) fs (''/web'' @ abs_path segs)) = Some bytes"
proof -
  have c: "list_all segment_ok ((dir @ [''web'']) @ segs)"
    using web_root(2) [OF assms(1)] plain_clean [OF assms(2)] by simp
  have "run_layer (strategy1 (abs_path dir) fs) (''/web'' @ abs_path segs)
      = Some (Send_File (abs_path (dir @ ''web'' # segs)) bytes)"
    using strategy1_plain [OF assms(1-3), of "''/web'' @ abs_path segs" "[]" fs]
      pipe_plain_file [OF web_root(2) [OF assms(1)] assms(2,3), of fs]
      sendFile_file [OF c, of fs bytes static_options] assms(4)
    by simp
  then show ?thesis by (simp add: app_chain)
qed

theorem web_file_served_witness:
  "app ''/app'' (map_of [(''/app/web/buyer/app.js'', File ''JS'')]) ''/web/buyer/app.js''
     = Send_File ''/app/web/buyer/app.js'' ''JS''
   \<and> body (app ''/app'' (map_of [(''/app/web/buyer/app.js'', File ''JS'')])
        ''/web/buyer/app.js'') = Some ''JS''"
proof -
  let ?fs = "map_of [(''/app/web/buyer/app.js'', File ''JS'')]"
  have d: "list_all segment_ok [''app'']" by code_simp
  have s: "list_all plain_segment [''buyer'', ''app.js'']" by code_simp
  have a: "abs_path [''app''] = ''/app''"
    "''/web'' @ abs_path [''buyer'', ''app.js''] = ''/web/buyer/app.js''"
    "abs_path ([''app''] @ ''web'' # [''buyer'', ''app.js'']) = ''/app/web/buyer/app.js''"
    by code_simp+
  have f: "?fs (abs_path ([''app''] @ ''web'' # [''buyer'', ''app.js''])) = Some (File ''JS'')"
    by code_simp
  show ?thesis
    using web_file_served [where fs = ?fs and dir = "[''app'']"
        and segs = "[''buyer'', ''app.js'']", OF d s _ f]
    unfolding a by simp
qed

section \<open>No file from outside the roots\<close>

text \<open>
  C5.  For every request path, path-traversal attempts such as
  \<^verbatim>\<open>/web/../../etc/passwd\<close> included, a file the server returns is located in
  the configured roots: its path is an absolute normalised path strictly below the
  base directory (which contains the web directory), and the body is the content of
  the file stored there.  A traversal attempt, a path that after decoding and
  normalisation climbs above its root, is answered with 404.  (The base directory
  is the directory \<^verbatim>\<open>server.js\<close> lies in, so it exists.)
\<close>

theorem no_file_outside_roots:
  assumes "list_all segment_ok dir" and "fs (abs_path dir) = Some Directory"
  shows "(\<forall>path bytes. app (abs_path dir) fs p = Send_File path bytes
            \<longrightarrow> under dir path \<and> fs path = Some (File bytes)) \<and>
         (traversal p \<longrightarrow> app (abs_path dir) fs p = Not_Found
            \<and> status (app (abs_path dir) fs p) = 404)"
proof (intro conjI allI impI)
  fix path bytes
  assume a: "app (abs_path dir) fs p = Send_File path bytes"
  have routes: "snd (dispatch [health, root_redirect] 3 p) \<noteq> Send_File path bytes"
    by (simp add: dispatch_routes)
  from a routes consider
      (1) "run_layer (strategy1 (abs_path dir) fs) p = Some (Send_File path bytes)"
    | (2) "run_layer (strategy2 (abs_path dir) fs) p = Some (Send_File path bytes)"
    | (3) "run_layer (strategy3 (abs_path dir) fs) p = Some (Send_File path bytes)"
    by (auto simp: app_chain split: option.splits)
  then have "under dir path \<and> fs path = Some (File bytes)"
  proof cases
    case 1
    then obtain url where "serveStatic (WEB_DIR (abs_path dir)) static_options fs p url
        = Some (Send_File path bytes)"
      by (auto simp: strategy1_def use_def split: option.splits)
    then show ?thesis by (rule served_from_web [OF assms(1)])
  next
    case 2
    then obtain url where "serveStatic (WEB_DIR (abs_path dir)) static_options fs p url
        = Some (Send_File path bytes)"
      by (auto simp: strategy2_def use_def split: option.splits)
    then show ?thesis by (rule served_from_web [OF assms(1)])
  next
    case 3
    then obtain url where "serveStatic (abs_path dir) static_options fs p url
        = Some (Send_File path bytes)"
      by (auto simp: strategy3_def use_def split: option.splits)
    then show ?thesis using assms by (rule served_from_base [where fs = fs and dir = dir, rotated 2])
  qed
  then show "under dir path" "fs path = Some (File bytes)" by simp_all
next
  assume t: "traversal p"
  have 1: "run_layer (strategy1 (abs_path dir) fs) p = None"
    using traversal_mounted [OF t] by (auto simp: strategy1_def use_def split: option.splits)
  have m: "match_use ''/'' p = Some p" by (simp add: match_use_def slash_def)
  have 2: "run_layer (strategy2 (abs_path dir) fs) p = None"
    using traversal_direct [OF t] by (simp add: strategy2_def use_def m)
  have 3: "run_layer (strategy3 (abs_path dir) fs) p = None"
    using traversal_direct [OF t] by (simp add: strategy3_def use_def m)
  show "app (abs_path dir) fs p = Not_Found" "status (app (abs_path dir) fs p) = 404"
    using 1 2 3 traversal_routes [OF t] by (simp_all add: app_chain)
qed

theorem no_file_outside_roots_witness:
  "under [''app''] ''/app/web/x''
   \<and> app ''/app'' (map_of [(''/app'', Directory), (''/app/web/x'', File ''X''),
        (''/etc/passwd'', File ''root'')]) ''/web/../../etc/passwd'' = Not_Found"
proof -
  let ?fs = "map_of [(''/app'', Directory), (''/app/web/x'', File ''X''),
        (''/etc/passwd'', File ''root'')]"
  have d: "list_all segment_ok [''app'']" by code_simp
  have r: "?fs (abs_path [''app'']) = Some Directory" by code_simp
  have a: "abs_path [''app''] = ''/app''" by code_simp
  have s: "app ''/app'' ?fs ''/web/x'' = Send_File ''/app/web/x'' ''X''" by code_simp
  have t: "traversal ''/web/../../etc/passwd''" by code_simp
  show ?thesis
    using no_file_outside_roots [where fs = ?fs and dir = "[''app'']" and p = "''/web/x''", OF d r]
      no_file_outside_roots [where fs = ?fs and dir = "[''app'']"
        and p = "''/web/../../etc/passwd''", OF d r] s t
    unfolding a by simp
qed

section \<open>Not found\<close>




section \<open>The \<^verbatim>\<open>.html\<close> extension\<close>

text \<open>
  C7, as the claim states it, fails.  The lookups are tried in order, so a file
  \<^verbatim>\<open>foo\<close> in the web directory is served for \<^verbatim>\<open>/foo\<close> although the base
  directory has no \<^verbatim>\<open>foo\<close> but has \<^verbatim>\<open>foo.html\<close>.  And a path whose last part
  starts with a dot is ignored: with \<^verbatim>\<open>.env.html\<close> in the web directory and no
  \<^verbatim>\<open>.env\<close> anywhere, \<^verbatim>\<open>/.env\<close> is answered with 404.
\<close>

theorem html_extension_counterexample:
  "extname ''/foo'' = []
   \<and> map_of [(''/app/web/foo'', File ''A''), (''/app/foo.html'', File ''B'')] ''/app/foo'' = None
   \<and> map_of [(''/app/web/foo'', File ''A''), (''/app/foo.html'', File ''B'')] ''/app/foo.html''
        = Some (File ''B'')
   \<and> app ''/app'' (map_of [(''/app/web/foo'', File ''A''), (''/app/foo.html'', File ''B'')]) ''/foo''
        = Send_File ''/app/web/foo'' ''A''
   \<and> body (app ''/app'' (map_of [(''/app/web/foo'', File ''A''), (''/app/foo.html'', File ''B'')])
        ''/foo'') \<noteq> Some ''B''
   \<and> extname ''/.env'' = []
   \<and> map_of [(''/app/web/.env.html'', File ''H'')] ''/app/web/.env.html'' = Some (File ''H'')
   \<and> app ''/app'' (map_of [(''/app/web/.env.html'', File ''H'')]) ''/.env'' = Not_Found"
  by code_simp

text \<open>
  C7, amended.  For every request path \<open>p\<close> of plain segments whose last segment
  contains no dot: if under the root of a lookup nothing exists at \<open>p\<close> and a regular
  file exists at \<open>p\<close> followed by \<^verbatim>\<open>.html\<close>, and no earlier lookup answers, then a GET
  on \<open>p\<close> returns 200 with the content of that file.  The three conjuncts are the
  three lookups: \<^verbatim>\<open>/web\<close> followed by \<open>p\<close> in the web directory, \<open>p\<close> in the web
  directory, \<open>p\<close> in the base directory.
\<close>

theorem html_extension:
  assumes "list_all segment_ok dir" and "list_all plain_segment segs" and "segs \<noteq> []"
    and "dot \<notin> set (last segs)"
  shows "(fs (abs_path (dir @ ''web'' # segs)) = None
          \<and> fs (abs_path (dir @ ''web'' # segs) @ ''.html'') = Some (File bytes)
        \<longrightarrow> app (abs_path dir) fs (''/web'' @ abs_path segs)
              = Send_File (abs_path (dir @ ''web'' # segs) @ ''.html'') bytes)
    \<and> (run_layer (strategy1 (abs_path dir) fs) (abs_path segs) = None
          \<and> fs (abs_path (dir @ ''web'' # segs)) = None
          \<and> fs (abs_path (dir @ ''web'' # segs) @ ''.html'') = Some (File bytes)
        \<longrightarrow> app (abs_path dir) fs (abs_path segs)
              = Send_File (abs_path (dir @ ''web'' # segs) @ ''.html'') bytes)
    \<and> (run_layer (strategy1 (abs_path dir) fs) (abs_path segs) = None
          \<and> run_layer (strategy2 (abs_path dir) fs) (abs_path segs) = None
          \<and> fs (abs_path (dir @ segs)) = None
          \<and> fs (abs_path (dir @ segs) @ ''.html'') = Some (File bytes)
        \<longrightarrow> app (abs_path dir) fs (abs_path segs)
              = Send_File (abs_path (dir @ segs) @ ''.html'') bytes)"
proof (intro conjI impI)
  note w = web_root(2) [OF assms(1)]
  {
    assume "fs (abs_path (dir @ ''web'' # segs)) = None
          \<and> fs (abs_path (dir @ ''web'' # segs) @ ''.html'') = Some (File bytes)"
    then have "run_layer (strategy1 (abs_path dir) fs) (''/web'' @ abs_path segs)
        = Some (Send_File (abs_path (dir @ ''web'' # segs) @ ''.html'') bytes)"
      using strategy1_plain [OF assms(1-3), of "''/web'' @ abs_path segs" "[]" fs]
        pipe_plain_html [OF w assms(2-4), of fs bytes]
      by simp
    then show "app (abs_path dir) fs (''/web'' @ abs_path segs)
              = Send_File (abs_path (dir @ ''web'' # segs) @ ''.html'') bytes"
      by (simp add: app_chain)
  }
  {
    assume "run_layer (strategy1 (abs_path dir) fs) (abs_path segs) = None
          \<and> fs (abs_path (dir @ ''web'' # segs)) = None
          \<and> fs (abs_path (dir @ ''web'' # segs) @ ''.html'') = Some (File bytes)"
    then show "app (abs_path dir) fs (abs_path segs)
              = Send_File (abs_path (dir @ ''web'' # segs) @ ''.html'') bytes"
      using strategy2_run [OF assms(1), of fs "abs_path segs"]
        pipe_plain_html [OF w assms(2-4), of fs bytes]
      by (simp add: app_chain)
  }
  {
    assume "run_layer (strategy1 (abs_path dir) fs) (abs_path segs) = None
          \<and> run_layer (strategy2 (abs_path dir) fs) (abs_path segs) = None
          \<and> fs (abs_path (dir @ segs)) = None
          \<and> fs (abs_path (dir @ segs) @ ''.html'') = Some (File bytes)"
    then show "app (abs_path dir) fs (abs_path segs)
              = Send_File (abs_path (dir @ segs) @ ''.html'') bytes"
      using strategy3_run [OF assms(1), of fs "abs_path segs"]
        pipe_plain_html [OF assms(1-4), of fs bytes]
      by (simp add: app_chain)
  }
qed

theorem html_extension_witness:
  "app ''/app'' (map_of [(''/app/web/about.html'', File ''A''), (''/app/terms.html'', File ''T'')])
      ''/web/about'' = Send_File ''/app/web/about.html'' ''A''
   \<and> app ''/app'' (map_of [(''/app/web/about.html'', File ''A''), (''/app/terms.html'', File ''T'')])
      ''/about'' = Send_File ''/app/web/about.html'' ''A''
   \<and> app ''/app'' (map_of [(''/app/web/about.html'', File ''A''), (''/app/terms.html'', File ''T'')])
      ''/terms'' = Send_File ''/app/terms.html'' ''T''"
proof -
  let ?fs = "map_of [(''/app/web/about.html'', File ''A''), (''/app/terms.html'', File ''T'')]"
  have d: "list_all segment_ok [''app'']" by code_simp
  have s: "list_all plain_segment [''about'']" "list_all plain_segment [''terms'']" by code_simp+
  have n: "dot \<notin> set (last [''about''])" "dot \<notin> set (last [''terms''])" by code_simp+
  have a: "abs_path [''app''] = ''/app''" "abs_path [''about''] = ''/about''"
    "abs_path [''terms''] = ''/terms''"
    "abs_path ([''app''] @ ''web'' # [''about'']) @ ''.html'' = ''/app/web/about.html''"
    "abs_path ([''app''] @ [''terms'']) @ ''.html'' = ''/app/terms.html''"
    by code_simp+
  have f: "?fs (abs_path ([''app''] @ ''web'' # [''about''])) = None"
    "?fs ''/app/web/about.html'' = Some (File ''A'')"
    "?fs (abs_path ([''app''] @ [''terms''])) = None"
    "?fs ''/app/terms.html'' = Some (File ''T'')"
    by code_simp+
  have r: "run_layer (strategy1 ''/app'' ?fs) ''/about'' = None"
    "run_layer (strategy1 ''/app'' ?fs) ''/terms'' = None"
    "run_layer (strategy2 ''/app'' ?fs) ''/terms'' = None"
    by code_simp+
  show ?thesis
    using html_extension [where fs = ?fs and dir = "[''app'']" and segs = "[''about'']"
        and bytes = "''A''", OF d s(1) _ n(1)]
      html_extension [where fs = ?fs and dir = "[''app'']" and segs = "[''terms'']"
        and bytes = "''T''", OF d s(2) _ n(2)]
      f r
    unfolding a by simp
qed

section \<open>Directories and their index file\<close>




section \<open>The listen port\<close>



section \<open>Prefixed and unprefixed access to the web directory\<close>

text \<open>
  C10, as the claim states it, fails: for the relative path \<^verbatim>\<open>web/x\<close> the
  unprefixed request \<^verbatim>\<open>/web/x\<close> is itself a prefixed request, which the first
  lookup resolves to the file \<^verbatim>\<open>x\<close> of the web directory, while
  \<^verbatim>\<open>/web/web/x\<close> gives the file \<^verbatim>\<open>web/x\<close>; the two bodies differ.
\<close>

theorem prefixed_unprefixed_counterexample:
  "map_of [(''/app/web/web/x'', File ''A''), (''/app/web/x'', File ''B'')]
      (path_join [WEB_DIR ''/app'', ''web/x'']) = Some (File ''A'')
   \<and> app ''/app'' (map_of [(''/app/web/web/x'', File ''A''), (''/app/web/x'', File ''B'')])
        (''/web/'' @ ''web/x'') = Send_File ''/app/web/web/x'' ''A''
   \<and> app ''/app'' (map_of [(''/app/web/web/x'', File ''A''), (''/app/web/x'', File ''B'')])
        (''/'' @ ''web/x'') = Send_File ''/app/web/x'' ''B''
   \<and> body (app ''/app'' (map_of [(''/app/web/web/x'', File ''A''), (''/app/web/x'', File ''B'')])
        (''/web/'' @ ''web/x''))
     \<noteq> body (app ''/app'' (map_of [(''/app/web/web/x'', File ''A''), (''/app/web/x'', File ''B'')])
        (''/'' @ ''web/x''))"
  by code_simp

text \<open>
  C10, amended.  For every relative path \<open>q\<close> of plain segments whose first segment
  is not \<^verbatim>\<open>web\<close> (in any letter case) such that a regular file exists in the web
  directory at \<open>q\<close>, a GET on \<^verbatim>\<open>/web/\<close> followed by \<open>q\<close> and a GET on \<^verbatim>\<open>/\<close>
  followed by \<open>q\<close> both return 200 with the same body, the bytes of that file.
\<close>

theorem prefixed_unprefixed:
  assumes "list_all segment_ok dir" and "list_all plain_segment segs" and "segs \<noteq> []"
    and "map toLower (hd segs) \<noteq> ''web''"
    and "fs (abs_path (dir @ ''web'' # segs)) = Some (File bytes)"
  shows "app (abs_path dir) fs (''/web'' @ abs_path segs)
           = Send_File (abs_path (dir @ ''web'' # segs)) bytes
    \<and> app (abs_path dir) fs (abs_path segs) = Send_File (abs_path (dir @ ''web'' # segs)) bytes
    \<and> status (app (abs_path dir) fs (''/web'' @ abs_path segs)) = 200
    \<and> status (app (abs_path dir) fs (abs_path segs)) = 200
    \<and> body (app (abs_path dir) fs (''/web'' @ abs_path segs)) = Some bytes
    \<and> body (app (abs_path dir) fs (abs_path segs)) = Some bytes"
proof -
  note w = web_root(2) [OF assms(1)]
  have c: "list_all segment_ok ((dir @ [''web'']) @ segs)"
    using w plain_clean [OF assms(2)] by simp
  have p: "pipe static_options (abs_path (dir @ [''web''])) fs (abs_path segs)
      = SFile (abs_path (dir @ ''web'' # segs)) bytes"
    using pipe_plain_file [OF w assms(2,3), of fs]
      sendFile_file [OF c, of fs bytes static_options] assms(5) by simp
  have 1: "run_layer (strategy1 (abs_path dir) fs) (''/web'' @ abs_path segs)
      = Some (Send_File (abs_path (dir @ ''web'' # segs)) bytes)"
    using strategy1_plain [OF assms(1-3), of "''/web'' @ abs_path segs" "[]" fs] p by simp
  obtain s ss where segs: "segs = s # ss" using assms(3) by (cases segs) auto
  have s: "slash \<notin> set s" using assms(2) segs plain_segment_ok [of s] by (simp add: segment_ok_def)
  have "abs_path segs = slash # s @ (if ss = [] then [] else slash # join_sep ss)"
    by (simp add: segs abs_path_def join_sep_Cons)
  then have "match_use ''/web'' (abs_path segs) = None"
    using not_mounted [OF s, of "if ss = [] then [] else slash # join_sep ss"] assms(4) segs
    by simp
  then have 2: "run_layer (strategy1 (abs_path dir) fs) (abs_path segs) = None"
    by (rule strategy1_none)
  have 3: "run_layer (strategy2 (abs_path dir) fs) (abs_path segs)
      = Some (Send_File (abs_path (dir @ ''web'' # segs)) bytes)"
    using strategy2_run [OF assms(1), of fs "abs_path segs"] p by simp
  show ?thesis using 1 2 3 by (simp add: app_chain)
qed

theorem prefixed_unprefixed_witness:
  "app ''/app'' (map_of [(''/app/web/buyer/app.js'', File ''JS'')]) ''/web/buyer/app.js''
     = Send_File ''/app/web/buyer/app.js'' ''JS''
   \<and> app ''/app'' (map_of [(''/app/web/buyer/app.js'', File ''JS'')]) ''/buyer/app.js''
     = Send_File ''/app/web/buyer/app.js'' ''JS''"
proof -
  let ?fs = "map_of [(''/app/web/buyer/app.js'', File ''JS'')]"
  have d: "list_all segment_ok [''app'']" by code_simp
  have s: "list_all plain_segment [''buyer'', ''app.js'']" by code_simp
  have h: "map toLower (hd [''buyer'', ''app.js'']) \<noteq> ''web''" by code_simp
  have a: "abs_path [''app''] = ''/app''"
    "abs_path [''buyer'', ''app.js''] = ''/buyer/app.js''"
    "abs_path ([''app''] @ ''web'' # [''buyer'', ''app.js'']) = ''/app/web/buyer/app.js''"
    by code_simp+
  have f: "?fs (abs_path ([''app''] @ ''web'' # [''buyer'', ''app.js''])) = Some (File ''JS'')"
    by code_simp
  show ?thesis
    using prefixed_unprefixed [where fs = ?fs and dir = "[''app'']"
        and segs = "[''buyer'', ''app.js'']", OF d s _ h f]
    unfolding a by simp
qed

end
